theory Spec2Isabelle
  imports Complex_Main "HOL-Library.Signed_Division" "HOL-Library.Sublist"
begin

section \<open>The primality engine of consumer.js\<close>

text \<open>
  The worker (consumer.js) computes on JavaScript \<^verbatim>\<open>BigInt\<close> values, which are
  unbounded integers: they are modelled as \<^typ>\<open>int\<close>. The BigInt operators
  \<^verbatim>\<open>%\<close> and \<^verbatim>\<open>/\<close> truncate towards zero, which is \<open>smod\<close> and \<open>sdiv\<close>;
  a zero divisor raises a RangeError. Exceptions are values of type \<open>error\<close>: a
  function that can raise returns \<open>error + 'a\<close>, with \<open>Inl\<close> for the exception. A
  function whose loop has no bound returns an \<open>option\<close> around that, and \<open>None\<close>
  means that the call does not return.
\<close>

datatype error = RangeError | TypeError | SyntaxError

subsection \<open>modPow\<close>

text \<open>
  \<^verbatim>\<open>
  function modPow(base, exponent, modulus) {
    if (modulus === 1n) return 0n;
    let result = 1n;
    base = base % modulus;
    while (exponent > 0n) {
      if (exponent % 2n === 1n) {
        result = (result * base) % modulus;
      }
      exponent = exponent / 2n;
      base = (base * base) % modulus;
    }
    return result;
  }
  \<close>
  The only divisor besides the literal \<^verbatim>\<open>2n\<close> is \<^verbatim>\<open>modulus\<close>; its first use,
  \<^verbatim>\<open>base % modulus\<close>, raises the RangeError of a division by zero.
\<close>

function modPow_loop :: "int \<Rightarrow> int \<Rightarrow> int \<Rightarrow> int \<Rightarrow> int" where
  "modPow_loop result base exponent modulus =
     (if exponent > 0
      then modPow_loop
             (if exponent smod 2 = 1 then (result * base) smod modulus else result)
             ((base * base) smod modulus)
             (exponent sdiv 2)
             modulus
      else result)"
  by pat_completeness auto
termination
proof (relation "measure (\<lambda>(result, base, exponent, modulus). nat exponent)")
  show "wf (measure (\<lambda>(result, base, exponent, modulus). nat exponent))"
    by simp
next
  fix result base exponent modulus :: int
  assume "0 < exponent"
  then have "exponent sdiv 2 < exponent"
    by (simp add: signed_divide_int_def sgn_if)
  with \<open>0 < exponent\<close>
  show "((if exponent smod 2 = 1 then (result * base) smod modulus else result,
          (base * base) smod modulus, exponent sdiv 2, modulus),
         (result, base, exponent, modulus))
        \<in> measure (\<lambda>(result, base, exponent, modulus). nat exponent)"
    by simp
qed

declare modPow_loop.simps [simp del]

definition modPow :: "int \<Rightarrow> int \<Rightarrow> int \<Rightarrow> error + int" where
  "modPow base exponent modulus =
     (if modulus = 1 then Inr 0
      else if modulus = 0 then Inl RangeError
      else Inr (modPow_loop 1 (base smod modulus) exponent modulus))"

subsection \<open>millerRabin\<close>

text \<open>
  \<^verbatim>\<open>
  function millerRabin(n, k) {
    if (n === 2n || n === 3n) return true;
    if (n < 2n || n % 2n === 0n) return false;
    let s = 0n;
    let d = n - 1n;
    while (d % 2n === 0n) { d /= 2n; s += 1n; }
    WitnessLoop:
    for (let i = 0; i < k; i++) {
      const a = 2n + BigInt(Math.floor(Math.random() * Number(n - 4n)));
      let x = modPow(a, d, n);
      if (x === 1n || x === n - 1n) continue;
      for (let r = 1n; r < s; r++) {
        x = modPow(x, 2n, n);
        if (x === n - 1n) continue WitnessLoop;
      }
      return false;
    }
    return true;
  }
  \<close>
\<close>

text \<open>
  The halving loop has no bound of its own (it would spin on \<open>d = 0\<close>), so it is a
  partial function: \<open>None\<close> is "does not return".
\<close>

partial_function (option) factorTwos :: "int \<Rightarrow> int \<Rightarrow> (int \<times> int) option" where
  "factorTwos s d = (if d smod 2 = 0 then factorTwos (s + 1) (d sdiv 2) else Some (s, d))"

declare factorTwos.simps [code]

text \<open>
  The draw \<^verbatim>\<open>2n + BigInt(Math.floor(Math.random() * Number(n - 4n)))\<close>. The value
  \<open>u\<close> is what \<^verbatim>\<open>Math.random()\<close> returned, a number with \<open>0 \<le> u < 1\<close>.
  \<^verbatim>\<open>Number\<close> of a BigInt of magnitude \<open>2^1024 - 2^970\<close> or more is an infinity
  (the largest double is \<open>2^1024 - 2^971\<close>, and the conversion rounds to nearest);
  the product and its floor are then infinite or NaN, and \<^verbatim>\<open>BigInt\<close> of such a
  number raises a RangeError. That branch is exact.

  Below the bound the definition is an abstraction: it takes the product and its floor
  over the reals, while the code rounds \<^verbatim>\<open>Number(n - 4n)\<close> and the product to
  doubles. For one and the same \<open>u\<close> the two can differ in the value drawn once
  \<open>n - 4\<close> needs more than 53 bits; they do not differ in the range of the draws.
  \<^verbatim>\<open>Math.random()\<close> is at most \<open>1 - 2^-53\<close>, so the rounded product is at most the
  largest double below \<^verbatim>\<open>Number(n - 4n)\<close>, which is below \<open>n - 4\<close>, and the floor
  is an integer in \<open>[0, n - 5]\<close>: every draw of the code is the draw of the definition
  for some \<open>u\<close> in \<open>[0, 1)\<close>. What is proved below for all \<open>u\<close> in \<open>[0, 1)\<close>
  therefore holds of every draw of the code; what the draw is for a given value of
  \<^verbatim>\<open>Math.random()\<close> is not claimed for such \<open>n\<close>.
\<close>

definition drawWitness :: "int \<Rightarrow> real \<Rightarrow> error + int" where
  "drawWitness n u =
     (if 2 ^ 1024 - 2 ^ 970 \<le> \<bar>n - 4\<bar> then Inl RangeError
      else Inr (2 + \<lfloor>u * of_int (n - 4)\<rfloor>))"

text \<open>
  The inner loop \<^verbatim>\<open>for (let r = 1n; r < s; r++)\<close>: \<open>Inr True\<close> is
  \<^verbatim>\<open>continue WitnessLoop\<close>, \<open>Inr False\<close> is falling out of the loop.
\<close>

function squareLoop :: "int \<Rightarrow> int \<Rightarrow> int \<Rightarrow> int \<Rightarrow> error + bool" where
  "squareLoop r s x n =
     (if r < s
      then (case modPow x 2 n of
              Inl e \<Rightarrow> Inl e
            | Inr x' \<Rightarrow> if x' = n - 1 then Inr True else squareLoop (r + 1) s x' n)
      else Inr False)"
  by pat_completeness auto
termination
  by (relation "measure (\<lambda>(r, s, x, n). nat (s - r))") auto

declare squareLoop.simps [simp del]

text \<open>
  The witness loop. \<open>rnd j\<close> is the value of the \<open>j\<close>-th call of
  \<^verbatim>\<open>Math.random()\<close> made by this run of millerRabin; round \<open>i\<close> makes the
  \<open>i\<close>-th call.
\<close>

function witnessLoop ::
  "(nat \<Rightarrow> real) \<Rightarrow> int \<Rightarrow> int \<Rightarrow> int \<Rightarrow> int \<Rightarrow> int \<Rightarrow> error + bool" where
  "witnessLoop rnd n s d k i =
     (if i < k
      then (case drawWitness n (rnd (nat i)) of
              Inl e \<Rightarrow> Inl e
            | Inr a \<Rightarrow>
               (case modPow a d n of
                  Inl e \<Rightarrow> Inl e
                | Inr x \<Rightarrow>
                   if x = 1 \<or> x = n - 1 then witnessLoop rnd n s d k (i + 1)
                   else (case squareLoop 1 s x n of
                           Inl e \<Rightarrow> Inl e
                         | Inr True \<Rightarrow> witnessLoop rnd n s d k (i + 1)
                         | Inr False \<Rightarrow> Inr False)))
      else Inr True)"
  by pat_completeness auto
termination
  by (relation "measure (\<lambda>(rnd, n, s, d, k, i). nat (k - i))") auto

declare witnessLoop.simps [simp del]

definition millerRabin :: "(nat \<Rightarrow> real) \<Rightarrow> int \<Rightarrow> int \<Rightarrow> (error + bool) option" where
  "millerRabin rnd n k =
     (if n = 2 \<or> n = 3 then Some (Inr True)
      else if n < 2 \<or> n smod 2 = 0 then Some (Inr False)
      else (case factorTwos 0 (n - 1) of
              None \<Rightarrow> None
            | Some (s, d) \<Rightarrow> Some (witnessLoop rnd n s d k 0)))"

section \<open>Message processing and the polling loop of consumer.js\<close>

text \<open>
  The rest of consumer.js talks to the outside: the JavaScript built-ins
  (\<^verbatim>\<open>JSON.parse\<close>, \<^verbatim>\<open>JSON.stringify\<close>, \<^verbatim>\<open>BigInt\<close>), the random source and
  the IBM MQ client library. None of them is code of this repository. The built-ins are
  functions, taken as parameters (record \<open>builtins\<close>); what the queue manager and the
  random source answer while one task of the event loop runs is an input of that task
  (record \<open>turn\<close>). What the worker does to the outside is appended to a trace of
  effects, in program order; tasks handed to \<^verbatim>\<open>setTimeout\<close> and
  \<^verbatim>\<open>setImmediate\<close> wait in \<open>timers\<close>. A message is a list of bytes
  (\<^typ>\<open>string\<close>); a \<^verbatim>\<open>Buffer\<close> and its text are the same list.
\<close>

text \<open>
  A value that \<^verbatim>\<open>JSON.parse\<close> returns. A number is a double: \<open>JNumber\<close> holds a
  finite one, and \<open>JInfinity\<close> is the \<^verbatim>\<open>Infinity\<close> (\<open>True\<close>) or
  \<^verbatim>\<open>-Infinity\<close> (\<open>False\<close>) that the parser returns for a literal beyond the
  range of doubles. An object is the list of its own properties (the parser leaves no
  key twice).
\<close>

datatype json =
    JNull
  | JBool bool
  | JNumber real
  | JInfinity bool
  | JString string
  | JArray "json list"
  | JObject "(string \<times> json) list"

record builtins =
  JSON_parse :: "string \<Rightarrow> error + json"
  JSON_stringify :: "json \<Rightarrow> string"
  BigInt :: "json \<Rightarrow> error + int"

text \<open>
  Connection and queue handles, the error of the MQ library with its reason code
  \<^verbatim>\<open>err.mqrc\<close>, and the two arguments \<^verbatim>\<open>(err, value)\<close> of a callback.
  A receive either fails or reports the bytes the library wrote into the buffer and the
  length \<^verbatim>\<open>len\<close>.
\<close>

type_synonym hconn = nat
type_synonym hobj = nat

datatype mqerror = MQError (mqrc: int)

datatype 'a callback = Err mqerror | Ok 'a

datatype received = GetError mqerror | GetOk string int

text \<open>
  The answers of the outside during one task: of \<^verbatim>\<open>mq.Connx\<close>, of the two
  \<^verbatim>\<open>mq.Open\<close> calls, of \<^verbatim>\<open>mq.Disc\<close>, of \<^verbatim>\<open>mq.GetSync\<close>, of
  \<^verbatim>\<open>mq.PutSync\<close> (\<open>None\<close>: the message was accepted), and the values of
  \<^verbatim>\<open>Math.random()\<close>.
\<close>

record turn =
  connx_answer :: "hconn callback"
  open_input_answer :: "hobj callback"
  open_output_answer :: "hobj callback"
  disc_answer :: "mqerror option"
  get_answer :: received
  put_answer :: "mqerror option"
  random_values :: "nat \<Rightarrow> real"

text \<open>
  The two functions that are ever scheduled, how they are scheduled, and the effects.
  \<open>Console\<close> keeps the fixed first argument of each \<^verbatim>\<open>console.log\<close> and
  \<^verbatim>\<open>console.error\<close> call; \<open>MQPut\<close> stands for a message the queue manager
  accepted.
\<close>

datatype task = StartConsumer | GetMessage hobj

datatype dispatch = SetTimeout nat | SetImmediate

datatype stream = Stdout | Stderr

datatype queue = InputQueue | OutputQueue

datatype effect =
    Console stream string
  | MQConnx
  | MQOpen hconn queue
  | MQDisc hconn
  | MQGet hobj
  | MQPut hobj string
  | Schedule dispatch task

text \<open>
  The state: the module variable \<^verbatim>\<open>let outQueueHandle;\<close> (\<open>None\<close> is
  \<^verbatim>\<open>undefined\<close>), the trace, and the scheduled tasks.
\<close>

record world =
  outQueueHandle :: "hobj option"
  trace :: "effect list"
  timers :: "(dispatch \<times> task) list"

definition emit :: "effect list \<Rightarrow> world \<Rightarrow> world" where
  "emit es w = w\<lparr>trace := trace w @ es\<rparr>"

definition schedule :: "dispatch \<Rightarrow> task \<Rightarrow> world \<Rightarrow> world" where
  "schedule d t w = w\<lparr>trace := trace w @ [Schedule d t], timers := timers w @ [(d, t)]\<rparr>"

definition published :: "world \<Rightarrow> (hobj \<times> string) list" where
  "published w = List.map_filter (\<lambda>e. case e of MQPut h m \<Rightarrow> Some (h, m) | _ \<Rightarrow> None) (trace w)"

text \<open>
  \<^verbatim>\<open>data.hasOwnProperty(key)\<close> and \<^verbatim>\<open>data.key\<close> on a parsed value, for the keys
  the worker uses (\<^verbatim>\<open>id\<close>, \<^verbatim>\<open>value\<close>: no built-in prototype defines them,
  and they are no property of a string or an array). Both raise a TypeError on
  \<^verbatim>\<open>null\<close>. An object with an own property named \<^verbatim>\<open>hasOwnProperty\<close> hides
  the method, and the call raises a TypeError. \<open>Inr None\<close> is \<^verbatim>\<open>undefined\<close>.
\<close>

definition hasOwnProperty :: "json \<Rightarrow> string \<Rightarrow> error + bool" where
  "hasOwnProperty data key =
     (case data of
        JNull \<Rightarrow> Inl TypeError
      | JObject kvs \<Rightarrow>
          (case map_of kvs ''hasOwnProperty'' of
             Some f \<Rightarrow> Inl TypeError
           | None \<Rightarrow> Inr (map_of kvs key \<noteq> None))
      | _ \<Rightarrow> Inr False)"

definition property :: "json \<Rightarrow> string \<Rightarrow> error + json option" where
  "property data key =
     (case data of
        JNull \<Rightarrow> Inl TypeError
      | JObject kvs \<Rightarrow> Inr (map_of kvs key)
      | _ \<Rightarrow> Inr None)"

text \<open>
  The conversion to a string that a template literal applies to a parsed value, as far
  as it can raise. A primitive converts. An object converts by its \<^verbatim>\<open>toString\<close>
  method: the inherited one answers for every object, but an own property named
  \<^verbatim>\<open>toString\<close> hides it with a value that is no function, after which neither it
  nor \<^verbatim>\<open>valueOf\<close> gives a primitive, and the conversion raises a TypeError. An
  array joins the conversions of its elements (\<^verbatim>\<open>null\<close> converts to the empty
  string there), so it raises when one of them does.
\<close>

fun toString_raises :: "json \<Rightarrow> bool" where
  "toString_raises (JArray xs) = (\<exists>x\<in>set xs. toString_raises x)"
| "toString_raises (JObject kvs) = (map_of kvs ''toString'' \<noteq> None)"
| "toString_raises j = False"

text \<open>
  The object literal \<^verbatim>\<open>{ id: data.id, value: data.value, prime: isPrime }\<close> as
  \<^verbatim>\<open>JSON.stringify\<close> sees it: a property whose value is \<^verbatim>\<open>undefined\<close> is
  left out.
\<close>

definition object_literal :: "(string \<times> (error + json option)) list \<Rightarrow> json" where
  "object_literal props =
     JObject (List.map_filter
       (\<lambda>(k, v). case v of Inr (Some j) \<Rightarrow> Some (k, j) | _ \<Rightarrow> None) props)"

text \<open>
  \<^verbatim>\<open>
  function sendResponse(responseObj) {
    const msgStr = JSON.stringify(responseObj);
    const buf = Buffer.from(msgStr);
    ...
    if (!outQueueHandle) {
      console.error("Output queue handle is not available. Cannot send response.");
      return;
    }
    mq.PutSync(outQueueHandle, mqmd, pmo, buf, (err) => {
      if (err) { console.error("Error putting message to output queue:", err); }
      else { console.log(...); }
    });
  }
  \<close>
\<close>

definition sendResponse :: "builtins \<Rightarrow> turn \<Rightarrow> json \<Rightarrow> world \<Rightarrow> world" where
  "sendResponse js t responseObj w =
     (let msgStr = JSON_stringify js responseObj in
      case outQueueHandle w of
        None \<Rightarrow>
          emit [Console Stderr ''Output queue handle is not available. Cannot send response.''] w
      | Some h \<Rightarrow>
          (case put_answer t of
             Some err \<Rightarrow> emit [Console Stderr ''Error putting message to output queue:''] w
           | None \<Rightarrow> emit [MQPut h msgStr, Console Stdout ''Response sent to''] w))"

text \<open>
  \<^verbatim>\<open>
  function processMessage(msg) {
    console.log("Processing a message...");
    const msgText = msg.toString();
    try {
      const data = JSON.parse(msgText);
      if (!data.hasOwnProperty("id") || data.value === undefined) {
        console.error("Message JSON missing required fields:", msgText);
        return;
      }
      let value;
      try { value = BigInt(data.value); }
      catch (error) { console.error("Invalid value in message:", data.value); return; }
      const isPrime = millerRabin(value, 5);
      console.log(<template literal with ${data.id}, ${value.toString()} and the verdict>);
      const response = { id: data.id, value: data.value, prime: isPrime };
      sendResponse(response);
    } catch (err) {
      console.error("Error parsing JSON:", err, msgText);
    }
  }
  \<close>
  \<open>missing_fields\<close> is the condition of the first \<^verbatim>\<open>if\<close>, with the short
  circuit of \<^verbatim>\<open>||\<close>. \<open>processMessage_try\<close> is the body of the outer
  \<^verbatim>\<open>try\<close>: \<open>Inl\<close> is an exception that reaches the outer \<^verbatim>\<open>catch\<close>,
  and \<open>None\<close> is a primality test that does not return. \<open>record_line\<close> is the
  \<^verbatim>\<open>console.log\<close> after the test: its template literal converts
  \<^verbatim>\<open>data.id\<close> to a string, which can raise (\<^verbatim>\<open>undefined\<close> and a BigInt
  convert). \<open>processMessage\<close> adds the outer \<^verbatim>\<open>catch\<close>, so it raises nothing.
\<close>

definition missing_fields :: "json \<Rightarrow> error + bool" where
  "missing_fields data =
     (case hasOwnProperty data ''id'' of
        Inl e \<Rightarrow> Inl e
      | Inr False \<Rightarrow> Inr True
      | Inr True \<Rightarrow>
          (case property data ''value'' of
             Inl e \<Rightarrow> Inl e
           | Inr v \<Rightarrow> Inr (v = None)))"

definition record_line :: "json \<Rightarrow> error + effect" where
  "record_line data =
     (case property data ''id'' of
        Inl e \<Rightarrow> Inl e
      | Inr None \<Rightarrow> Inr (Console Stdout ''Record is prime / not prime'')
      | Inr (Some data_id) \<Rightarrow>
          if toString_raises data_id then Inl TypeError
          else Inr (Console Stdout ''Record is prime / not prime''))"

definition processMessage_try :: "builtins \<Rightarrow> turn \<Rightarrow> string \<Rightarrow> world \<Rightarrow> (error + world) option" where
  "processMessage_try js t msgText w =
     (case JSON_parse js msgText of
        Inl e \<Rightarrow> Some (Inl e)
      | Inr data \<Rightarrow>
          (case missing_fields data of
             Inl e \<Rightarrow> Some (Inl e)
           | Inr True \<Rightarrow>
               Some (Inr (emit [Console Stderr ''Message JSON missing required fields:''] w))
           | Inr False \<Rightarrow>
               (case property data ''value'' of
                  Inl e \<Rightarrow> Some (Inl e)
                | Inr None \<Rightarrow>
                    Some (Inr (emit [Console Stderr ''Invalid value in message:''] w))
                | Inr (Some data_value) \<Rightarrow>
                    (case BigInt js data_value of
                       Inl error \<Rightarrow>
                         Some (Inr (emit [Console Stderr ''Invalid value in message:''] w))
                     | Inr val \<Rightarrow>
                         (case millerRabin (random_values t) val 5 of
                            None \<Rightarrow> None
                          | Some (Inl e) \<Rightarrow> Some (Inl e)
                          | Some (Inr isPrime) \<Rightarrow>
                              (case record_line data of
                                 Inl e \<Rightarrow> Some (Inl e)
                               | Inr line \<Rightarrow>
                                   Some (Inr (sendResponse js t
                                     (object_literal
                                        [(''id'', property data ''id''),
                                         (''value'', property data ''value''),
                                         (''prime'', Inr (Some (JBool isPrime)))])
                                     (emit [line] w)))))))))"

definition processMessage :: "builtins \<Rightarrow> turn \<Rightarrow> string \<Rightarrow> world \<Rightarrow> world option" where
  "processMessage js t msg w =
     (let w1 = emit [Console Stdout ''Processing a message...''] w in
      case processMessage_try js t msg w1 of
        None \<Rightarrow> None
      | Some (Inl err) \<Rightarrow> Some (emit [Console Stderr ''Error parsing JSON:''] w1)
      | Some (Inr w2) \<Rightarrow> Some w2)"

text \<open>
  The reason code \<^verbatim>\<open>MQC.MQRC_NO_MSG_AVAILABLE\<close> of the MQ library, and the
  operations on the receive buffer: \<^verbatim>\<open>Buffer.alloc(n)\<close> is \<open>n\<close> zero bytes, the
  library writes into the buffer without changing its size, and
  \<^verbatim>\<open>buf.slice(start, end)\<close> counts a negative index from the end and clamps both
  indices to the buffer.
\<close>

definition MQRC_NO_MSG_AVAILABLE :: int where
  "MQRC_NO_MSG_AVAILABLE = 2033"

definition Buffer_alloc :: "nat \<Rightarrow> string" where
  "Buffer_alloc n = replicate n (CHR 0x00)"

definition Buffer_fill :: "string \<Rightarrow> string \<Rightarrow> string" where
  "Buffer_fill buf bytes = take (length buf) (bytes @ drop (length bytes) buf)"

definition Buffer_slice :: "string \<Rightarrow> int \<Rightarrow> int \<Rightarrow> string" where
  "Buffer_slice buf start fin =
     (let len = int (length buf);
          clamp = (\<lambda>i. if i < 0 then max (len + i) 0 else min i len);
          lo = clamp start; hi = clamp fin
      in take (nat (hi - lo)) (drop (nat lo) buf))"

text \<open>
  \<^verbatim>\<open>
  function getMessage() {
    console.log("Polling for a message...");
    ...
    gmo.WaitInterval = 3000;
    const buf = Buffer.alloc(1024);
    mq.GetSync(hIn, md, gmo, buf, (err, len) => {
      if (err) {
        if (err.mqrc === MQC.MQRC_NO_MSG_AVAILABLE) {
          console.log("No message available. Polling again...");
          return setImmediate(getMessage);
        } else {
          console.error("Error getting message:", err);
          return;
        }
      }
      console.log(...);
      const msgBuffer = buf.slice(0, len);
      processMessage(msgBuffer);
      setImmediate(getMessage);
    });
  }
  \<close>
\<close>

definition getMessage :: "builtins \<Rightarrow> turn \<Rightarrow> hobj \<Rightarrow> world \<Rightarrow> world option" where
  "getMessage js t hIn w =
     (let w1 = emit [Console Stdout ''Polling for a message...'', MQGet hIn] w in
      case get_answer t of
        GetError err \<Rightarrow>
          if mqrc err = MQRC_NO_MSG_AVAILABLE
          then Some (schedule SetImmediate (GetMessage hIn)
                 (emit [Console Stdout ''No message available. Polling again...''] w1))
          else Some (emit [Console Stderr ''Error getting message:''] w1)
      | GetOk bytes len \<Rightarrow>
          (let buf = Buffer_fill (Buffer_alloc 1024) bytes;
               msgBuffer = Buffer_slice buf 0 len
           in case processMessage js t msgBuffer
                     (emit [Console Stdout ''Message received, length:''] w1) of
                None \<Rightarrow> None
              | Some w2 \<Rightarrow> Some (schedule SetImmediate (GetMessage hIn) w2)))"

text \<open>
  \<^verbatim>\<open>
  function startConsumer() {
    console.log("Starting consumer...");
    ...
    mq.Connx(qMgr, cno, (err, hConn) => {
      if (err) {
        console.error("Error connecting to MQ:", err);
        console.log("Retrying connection in 5 seconds...");
        setTimeout(startConsumer, 5000);
        return;
      }
      ...
      mq.Open(hConn, odIn, openOptionsIn, (err, hIn) => {
        if (err) {
          console.error("Error opening input queue:", err);
          mq.Disc(hConn, (discErr) => { if (discErr) console.error("Disconnect error:", discErr); });
          console.log("Retrying connection in 5 seconds...");
          setTimeout(startConsumer, 5000);
          return;
        }
        ...
        mq.Open(hConn, odOut, openOptionsOut, (err, hOut) => {
          if (err) { ... the same four statements ... }
          ...
          outQueueHandle = hOut;
          function getMessage() { ... }
          getMessage();
        });
      });
    });
  }
  \<close>
  \<open>startConsumer\<close> is the call together with its nested callbacks. \<open>retry\<close> is the
  pair \<^verbatim>\<open>console.log("Retrying ..."); setTimeout(startConsumer, 5000)\<close>;
  \<open>disconnect_and_retry\<close> puts the call of \<^verbatim>\<open>mq.Disc\<close> before it and the
  callback of \<^verbatim>\<open>mq.Disc\<close>, which runs later, after it.
\<close>

definition retry :: "world \<Rightarrow> world" where
  "retry w = schedule (SetTimeout 5000) StartConsumer
               (emit [Console Stdout ''Retrying connection in 5 seconds...''] w)"

definition disconnect_and_retry :: "turn \<Rightarrow> hconn \<Rightarrow> world \<Rightarrow> world" where
  "disconnect_and_retry t hConn w =
     (let w1 = retry (emit [MQDisc hConn] w) in
      case disc_answer t of
        Some discErr \<Rightarrow> emit [Console Stderr ''Disconnect error:''] w1
      | None \<Rightarrow> w1)"

definition startConsumer :: "builtins \<Rightarrow> turn \<Rightarrow> world \<Rightarrow> world option" where
  "startConsumer js t w =
     (let w1 = emit [Console Stdout ''Starting consumer...'', MQConnx] w in
      case connx_answer t of
        Err err \<Rightarrow> Some (retry (emit [Console Stderr ''Error connecting to MQ:''] w1))
      | Ok hConn \<Rightarrow>
          (let w2 = emit [Console Stdout ''Connected to queue manager'', MQOpen hConn InputQueue] w1 in
           case open_input_answer t of
             Err err \<Rightarrow>
               Some (disconnect_and_retry t hConn
                       (emit [Console Stderr ''Error opening input queue:''] w2))
           | Ok hIn \<Rightarrow>
               (let w3 = emit [Console Stdout ''Input queue opened.'', MQOpen hConn OutputQueue] w2 in
                case open_output_answer t of
                  Err err \<Rightarrow>
                    Some (disconnect_and_retry t hConn
                            (emit [Console Stderr ''Error opening output queue:''] w3))
                | Ok hOut \<Rightarrow>
                    getMessage js t hIn
                      ((emit [Console Stdout ''Output queue opened.''] w3)
                         \<lparr>outQueueHandle := Some hOut\<rparr>))))"

text \<open>
  The event loop of the runtime: it takes the oldest scheduled task and runs it to its
  end, one task for each turn of the outside; with nothing scheduled the worker does
  nothing more.
\<close>

fun run_task :: "builtins \<Rightarrow> turn \<Rightarrow> task \<Rightarrow> world \<Rightarrow> world option" where
  "run_task js t StartConsumer w = startConsumer js t w"
| "run_task js t (GetMessage hIn) w = getMessage js t hIn w"

fun event_loop :: "builtins \<Rightarrow> turn list \<Rightarrow> world \<Rightarrow> world option" where
  "event_loop js [] w = Some w"
| "event_loop js (t # ts) w =
     (case timers w of
        [] \<Rightarrow> Some w
      | (d, task) # rest \<Rightarrow>
          (case run_task js t task (w\<lparr>timers := rest\<rparr>) of
             None \<Rightarrow> None
           | Some w' \<Rightarrow> event_loop js ts w'))"

text \<open>The state in which the last line of the file, \<^verbatim>\<open>startConsumer();\<close>, runs.\<close>

definition initial_world :: world where
  "initial_world = \<lparr>outQueueHandle = None, trace = [], timers = []\<rparr>"

definition receives :: "world \<Rightarrow> nat" where
  "receives w = length (filter (\<lambda>e. case e of MQGet h \<Rightarrow> True | _ \<Rightarrow> False) (trace w))"

definition connects :: "world \<Rightarrow> nat" where
  "connects w = length (filter (\<lambda>e. case e of MQConnx \<Rightarrow> True | _ \<Rightarrow> False) (trace w))"

section \<open>Notions used by the statements, and sample inputs\<close>

text \<open>
  Primality, as the claims use the word: an integer above 1 that no integer from 2 up
  to itself (excluded) divides.
\<close>

definition is_prime :: "int \<Rightarrow> bool" where
  "is_prime n \<longleftrightarrow> 1 < n \<and> (\<forall>d\<in>{2..<n}. \<not> d dvd n)"

text \<open>
  Concrete inputs on which the theorems below are evaluated: a work record and its
  reply, a record without a value, a work record whose id is an integer beyond the 53
  bits of a double and its reply, built-ins that know these texts, the answers of a
  healthy queue manager, and states of the worker while it polls and while it waits to
  start again. On the five texts the table \<open>sample_builtins\<close> is what the runtime
  does: \<^verbatim>\<open>JSON.parse\<close> reads the literal \<open>12345678901234567890\<close> as the nearest
  double, \<open>12345678901234567168\<close>, and \<^verbatim>\<open>JSON.stringify\<close> writes that double
  with the shortest digits that determine it, \<open>12345678901234567000\<close>.
\<close>

definition sample_message :: string where
  \<open>sample_message = ''{"id":1,"value":"97"}''\<close>

definition sample_reply :: string where
  \<open>sample_reply = ''{"id":1,"value":"97","prime":true}''\<close>

definition sample_incomplete_message :: string where
  \<open>sample_incomplete_message = ''{"id":2}''\<close>

definition big_id_message :: string where
  \<open>big_id_message = ''{"id":12345678901234567890,"value":"97"}''\<close>

definition big_id_reply :: string where
  \<open>big_id_reply = ''{"id":12345678901234567000,"value":"97","prime":true}''\<close>

definition sample_builtins :: builtins where
  "sample_builtins =
     \<lparr>JSON_parse = (\<lambda>m.
        if m = sample_message
          then Inr (JObject [(''id'', JNumber 1), (''value'', JString ''97'')])
        else if m = sample_reply
          then Inr (JObject [(''id'', JNumber 1), (''value'', JString ''97''),
                             (''prime'', JBool True)])
        else if m = sample_incomplete_message
          then Inr (JObject [(''id'', JNumber 2)])
        else if m = big_id_message
          then Inr (JObject [(''id'', JNumber 12345678901234567168),
                             (''value'', JString ''97'')])
        else if m = big_id_reply
          then Inr (JObject [(''id'', JNumber 12345678901234567168),
                             (''value'', JString ''97''), (''prime'', JBool True)])
        else Inl SyntaxError),
      JSON_stringify = (\<lambda>j.
        if j = JObject [(''id'', JNumber 1), (''value'', JString ''97''),
                        (''prime'', JBool True)]
          then sample_reply
        else if j = JObject [(''id'', JNumber 12345678901234567168),
                             (''value'', JString ''97''), (''prime'', JBool True)]
          then big_id_reply
        else []),
      BigInt = (\<lambda>v. if v = JString ''97'' then Inr 97 else Inl SyntaxError)\<rparr>"

definition sample_turn :: turn where
  "sample_turn =
     \<lparr>connx_answer = Ok 1, open_input_answer = Ok 2, open_output_answer = Ok 3,
      disc_answer = None, get_answer = GetOk sample_message 21, put_answer = None,
      random_values = (\<lambda>i. 1 / 2)\<rparr>"

definition polling_world :: world where
  "polling_world =
     \<lparr>outQueueHandle = Some 3, trace = [], timers = [(SetImmediate, GetMessage 2)]\<rparr>"

definition starting_world :: world where
  "starting_world =
     \<lparr>outQueueHandle = None, trace = [], timers = [(SetTimeout 5000, StartConsumer)]\<rparr>"

section \<open>Verification of the primality engine\<close>

subsection \<open>Properties of modPow\<close>

lemma smod_nonneg_eq_mod: "0 \<le> a \<Longrightarrow> 0 < b \<Longrightarrow> a smod b = a mod (b::int)"
  by (simp add: signed_modulo_int_def sgn_if)

lemma sdiv_nonneg_eq_div: "0 \<le> a \<Longrightarrow> 0 < b \<Longrightarrow> a sdiv b = a div (b::int)"
  by (simp add: signed_divide_int_def sgn_if)

lemma nat_odd_halve: "0 < (e::int) \<Longrightarrow> e mod 2 = 1 \<Longrightarrow> nat e = Suc (2 * nat (e div 2))"
proof -
  assume a: "0 < e" "e mod 2 = 1"
  have "e = 2 * (e div 2) + 1" using a by presburger
  moreover have "0 \<le> e div 2" using a by simp
  ultimately have "int (nat e) = int (Suc (2 * nat (e div 2)))" using a by simp
  then show ?thesis by (rule int_int_eq [THEN iffD1])
qed

lemma nat_even_halve: "0 < (e::int) \<Longrightarrow> e mod 2 = 0 \<Longrightarrow> nat e = 2 * nat (e div 2)"
proof -
  assume a: "0 < e" "e mod 2 = 0"
  have "e = 2 * (e div 2)" using a by presburger
  moreover have "0 \<le> e div 2" using a by simp
  ultimately have "int (nat e) = int (2 * nat (e div 2))" using a by simp
  then show ?thesis by (rule int_int_eq [THEN iffD1])
qed

lemma modPow_loop_eq:
  "0 < m \<Longrightarrow> 0 \<le> r \<Longrightarrow> 0 \<le> b \<Longrightarrow> 0 \<le> e \<Longrightarrow>
   modPow_loop r b e m mod m = (r * b ^ nat e) mod m"
proof (induction r b e m rule: modPow_loop.induct)
  case (1 result base exponent modulus)
  show ?case
  proof (cases "0 < exponent")
    case False
    with "1.prems" have "exponent = 0" by simp
    then show ?thesis by (simp add: modPow_loop.simps [of _ _ 0])
  next
    case True
    let ?r' = "if exponent smod 2 = 1 then (result * base) smod modulus else result"
    let ?b' = "(base * base) smod modulus"
    let ?e' = "exponent sdiv 2"
    from "1.prems" have rb: "0 \<le> result * base" and bb: "0 \<le> base * base"
      by simp_all
    from "1.prems" rb have r': "0 \<le> ?r'"
      by (simp add: smod_nonneg_eq_mod)
    from "1.prems" bb have b': "0 \<le> ?b'" and b'eq: "?b' = (base * base) mod modulus"
      by (simp_all add: smod_nonneg_eq_mod)
    from True have e': "0 \<le> ?e'" and e'eq: "?e' = exponent div 2"
      by (simp_all add: sdiv_nonneg_eq_div)
    have step: "modPow_loop result base exponent modulus = modPow_loop ?r' ?b' ?e' modulus"
      using True by (subst modPow_loop.simps) simp
    have IH: "modPow_loop ?r' ?b' ?e' modulus mod modulus = (?r' * ?b' ^ nat ?e') mod modulus"
      using "1.IH" [OF True \<open>0 < modulus\<close> r' b' e'] .
    have pow2: "?b' ^ nat ?e' mod modulus = (base ^ (2 * nat (exponent div 2))) mod modulus"
      unfolding b'eq e'eq
      by (simp add: power_mod power_mult power2_eq_square)
    have odd_even: "exponent smod 2 = exponent mod 2"
      using True by (simp add: smod_nonneg_eq_mod)
    show ?thesis
    proof (cases "exponent mod 2 = 1")
      case odd: True
      then have ne: "nat exponent = Suc (2 * nat (exponent div 2))"
        using True by (intro nat_odd_halve)
      have "(?r' * ?b' ^ nat ?e') mod modulus
            = ((result * base) mod modulus * (?b' ^ nat ?e' mod modulus)) mod modulus"
        using odd odd_even rb "1.prems"
        by (simp add: smod_nonneg_eq_mod mod_mult_right_eq)
      also have "\<dots> = ((result * base) * base ^ (2 * nat (exponent div 2))) mod modulus"
        unfolding pow2 by (simp add: mod_mult_eq)
      also have "\<dots> = (result * base ^ nat exponent) mod modulus"
        unfolding ne by (simp add: mult.assoc)
      finally show ?thesis unfolding step IH .
    next
      case even: False
      then have ev: "exponent mod 2 = 0" by presburger
      then have ne: "nat exponent = 2 * nat (exponent div 2)"
        using True by (intro nat_even_halve)
      have "(?r' * ?b' ^ nat ?e') mod modulus
            = (result * (?b' ^ nat ?e' mod modulus)) mod modulus"
        using ev odd_even by (simp add: mod_mult_right_eq)
      also have "\<dots> = (result * base ^ (2 * nat (exponent div 2))) mod modulus"
        unfolding pow2 by (simp add: mod_mult_right_eq)
      also have "\<dots> = (result * base ^ nat exponent) mod modulus"
        using ne by simp
      finally show ?thesis unfolding step IH .
    qed
  qed
qed

lemma modPow_loop_range:
  "1 < m \<Longrightarrow> 0 \<le> r \<Longrightarrow> r < m \<Longrightarrow> 0 \<le> b \<Longrightarrow> 0 \<le> e \<Longrightarrow>
   0 \<le> modPow_loop r b e m \<and> modPow_loop r b e m < m"
proof (induction r b e m rule: modPow_loop.induct)
  case (1 result base exponent modulus)
  show ?case
  proof (cases "0 < exponent")
    case False
    with "1.prems" show ?thesis
      by (subst (1 2) modPow_loop.simps) simp
  next
    case True
    let ?r' = "if exponent smod 2 = 1 then (result * base) smod modulus else result"
    let ?b' = "(base * base) smod modulus"
    let ?e' = "exponent sdiv 2"
    from "1.prems" have m0: "0 < modulus" by simp
    from "1.prems" have rb: "0 \<le> result * base" and bb: "0 \<le> base * base"
      by simp_all
    from "1.prems" rb m0 have r': "0 \<le> ?r'" "?r' < modulus"
      by (simp_all add: smod_nonneg_eq_mod)
    from m0 bb have b': "0 \<le> ?b'"
      by (simp add: smod_nonneg_eq_mod)
    from True have e': "0 \<le> ?e'"
      by (simp add: sdiv_nonneg_eq_div)
    have step: "modPow_loop result base exponent modulus = modPow_loop ?r' ?b' ?e' modulus"
      using True by (subst modPow_loop.simps) simp
    show ?thesis
      unfolding step using "1.IH" [OF True \<open>1 < modulus\<close> r' b' e'] .
  qed
qed

lemma modPow_value:
  "0 \<le> base \<Longrightarrow> 0 \<le> exponent \<Longrightarrow> 1 \<le> modulus \<Longrightarrow>
   modPow base exponent modulus = Inr (base ^ nat exponent mod modulus)"
proof (cases "modulus = 1")
  case True
  then show ?thesis by (simp add: modPow_def)
next
  case False
  assume prems: "0 \<le> base" "0 \<le> exponent" "1 \<le> modulus"
  with False have m: "1 < modulus" by simp
  have b: "base smod modulus = base mod modulus"
    using prems m by (simp add: smod_nonneg_eq_mod)
  have range: "0 \<le> modPow_loop 1 (base mod modulus) exponent modulus
               \<and> modPow_loop 1 (base mod modulus) exponent modulus < modulus"
    using m prems by (intro modPow_loop_range) simp_all
  have "modPow_loop 1 (base mod modulus) exponent modulus mod modulus
        = (1 * (base mod modulus) ^ nat exponent) mod modulus"
    using m prems by (intro modPow_loop_eq) simp_all
  then have "modPow_loop 1 (base mod modulus) exponent modulus
             = base ^ nat exponent mod modulus"
    using range by (simp add: power_mod)
  with m b show ?thesis by (simp add: modPow_def)
qed

text \<open>
  C2. For every base \<open>\<ge> 0\<close>, exponent \<open>\<ge> 0\<close> and modulus \<open>\<ge> 1\<close>, modPow returns
  (it raises nothing) and its value is \<open>base ^ exponent mod modulus\<close>, over unbounded
  integers.
\<close>

theorem modPow_correct:
  "0 \<le> base \<Longrightarrow> 0 \<le> exponent \<Longrightarrow> 1 \<le> modulus \<Longrightarrow>
   modPow base exponent modulus = Inr (base ^ nat exponent mod modulus)"
  by (rule modPow_value)

theorem modPow_correct_witness:
  "(0::int) \<le> 7 \<and> (0::int) \<le> 13 \<and> (1::int) \<le> 10 \<and> modPow 7 13 10 = Inr 7"
  using modPow_correct [of 7 13 10] by simp

subsection \<open>The halving loop returns\<close>

lemma factorTwos_pos:
  "0 < d \<Longrightarrow> \<exists>s' d'. factorTwos s d = Some (s', d') \<and> s \<le> s' \<and> d' mod 2 = 1 \<and> 0 < d'
      \<and> d = d' * 2 ^ nat (s' - s)"
proof (induction "nat d" arbitrary: s d rule: less_induct)
  case less
  show ?case
  proof (cases "d mod 2 = 0")
    case False
    then have odd: "d mod 2 = 1" by presburger
    with less.prems have "d smod 2 \<noteq> 0" by (simp add: smod_nonneg_eq_mod)
    then have "factorTwos s d = Some (s, d)" by (subst factorTwos.simps) simp
    with odd less.prems show ?thesis by simp
  next
    case True
    with less.prems have sm: "d smod 2 = 0" and sd: "d sdiv 2 = d div 2"
      by (simp_all add: smod_nonneg_eq_mod sdiv_nonneg_eq_div)
    from True less.prems have half: "0 < d div 2" "nat (d div 2) < nat d" "d = 2 * (d div 2)"
      by (presburger, simp add: nat_less_iff, presburger)
    from less.hyps [OF half(2) half(1), of "s + 1"]
    obtain s' d' where r: "factorTwos (s + 1) (d div 2) = Some (s', d')" "s + 1 \<le> s'"
        "d' mod 2 = 1" "0 < d'" "d div 2 = d' * 2 ^ nat (s' - (s + 1))"
      by blast
    have step: "factorTwos s d = factorTwos (s + 1) (d div 2)"
      using sm sd by (subst factorTwos.simps) simp
    from r(2) have e: "nat (s' - s) = Suc (nat (s' - (s + 1)))" by simp
    have "d = 2 * (d div 2)" by (fact half(3))
    also have "\<dots> = 2 * (d' * 2 ^ nat (s' - (s + 1)))" by (simp only: r(5) [symmetric])
    also have "\<dots> = d' * 2 ^ Suc (nat (s' - (s + 1)))" by simp
    also have "\<dots> = d' * 2 ^ nat (s' - s)" by (simp only: e)
    finally have "d = d' * 2 ^ nat (s' - s)" .
    with step r show ?thesis by simp
  qed
qed

lemma millerRabin_returns: "millerRabin rnd n k \<noteq> None"
proof (cases "n = 2 \<or> n = 3 \<or> n < 2 \<or> n smod 2 = 0")
  case True
  then show ?thesis by (auto simp: millerRabin_def)
next
  case False
  then have "0 < n - 1" by simp
  from factorTwos_pos [OF this, of 0] obtain s' d' where "factorTwos 0 (n - 1) = Some (s', d')"
    by blast
  with False show ?thesis by (simp add: millerRabin_def)
qed

subsection \<open>Fermat's little theorem and square roots of one, from first principles\<close>

lemma prime_coprime:
  assumes "is_prime p" "0 < k" "k < p"
  shows "coprime p k"
proof -
  let ?g = "gcd p k"
  have g: "?g dvd p" "?g dvd k" by simp_all
  from assms have "0 < ?g" by simp
  from g(2) assms have "?g \<le> k" by (simp add: zdvd_imp_le)
  with assms have "?g < p" by linarith
  have "?g = 1"
  proof (rule ccontr)
    assume "?g \<noteq> 1"
    with \<open>0 < ?g\<close> have "2 \<le> ?g" by linarith
    with \<open>?g < p\<close> have "?g \<in> {2..<p}" by simp
    with assms(1) g(1) show False unfolding is_prime_def by blast
  qed
  then show ?thesis by (simp add: coprime_iff_gcd_eq_1)
qed

lemma prime_not_dvd_iff_coprime:
  assumes "is_prime p" "\<not> p dvd a"
  shows "coprime p a"
proof -
  from assms have p: "0 < p" by (simp add: is_prime_def)
  then have "0 \<le> a mod p" "a mod p < p" by simp_all
  moreover from assms(2) have "a mod p \<noteq> 0" by (simp add: dvd_eq_mod_eq_0)
  ultimately have "coprime p (a mod p)" using prime_coprime [OF assms(1), of "a mod p"] by simp
  then show ?thesis using p by (simp add: coprime_mod_right_iff)
qed

lemma prime_dvd_mult:
  assumes "is_prime p" "p dvd a * b"
  shows "p dvd a \<or> p dvd b"
proof (cases "p dvd a")
  case True then show ?thesis by simp
next
  case False
  then have "coprime p a" using assms(1) by (rule prime_not_dvd_iff_coprime [rotated])
  with assms(2) show ?thesis by (simp add: coprime_dvd_mult_right_iff)
qed

lemma prime_dvd_binomial:
  assumes "is_prime (int p)" "0 < k" "k < p"
  shows "int p dvd int (p choose k)"
proof -
  obtain p' k' where pk: "p = Suc p'" "k = Suc k'"
    using assms by (metis Suc_pred less_trans)
  have "Suc k' * (Suc p' choose Suc k') = Suc p' * (p' choose k')"
    by (rule Suc_times_binomial)
  then have "int k * int (p choose k) = int p * int (p' choose k')"
    unfolding pk by (metis of_nat_mult)
  then have "int p dvd int k * int (p choose k)" by simp
  moreover have "\<not> int p dvd int k"
    using assms by (simp add: nat_dvd_not_less)
  ultimately show ?thesis using prime_dvd_mult [OF assms(1)] by blast
qed

lemma freshman:
  assumes "is_prime (int p)"
  shows "((a + 1) ^ p) mod int p = (a ^ p + 1) mod int p"
proof -
  from assms have p2: "2 \<le> p" by (simp add: is_prime_def)
  then obtain q where q: "p = Suc q" "1 \<le> q" by (metis Suc_le_D Suc_1 Suc_le_mono)
  let ?f = "\<lambda>k. int (p choose k) * a ^ k"
  have "(a + 1) ^ p = (\<Sum>k\<le>p. ?f k)"
    by (simp add: binomial_ring)
  also have "\<dots> = (\<Sum>k\<in>{0..p}. ?f k)" by (simp add: atMost_atLeast0)
  also have "\<dots> = ?f 0 + (\<Sum>k\<in>{Suc 0..p}. ?f k)"
    by (rule sum.atLeast_Suc_atMost) simp
  also have "(\<Sum>k\<in>{Suc 0..p}. ?f k) = ?f p + (\<Sum>k\<in>{Suc 0..q}. ?f k)"
    unfolding q using q(2) by (intro sum.nat_ivl_Suc') simp
  finally have eq: "(a + 1) ^ p = 1 + a ^ p + (\<Sum>k\<in>{Suc 0..q}. ?f k)" by simp
  have "int p dvd (\<Sum>k\<in>{Suc 0..q}. ?f k)"
  proof (rule dvd_sum)
    fix k assume "k \<in> {Suc 0..q}"
    then have "0 < k" "k < p" using q by simp_all
    from prime_dvd_binomial [OF assms this] show "int p dvd ?f k" by simp
  qed
  then have "(1 + a ^ p + (\<Sum>k\<in>{Suc 0..q}. ?f k)) mod int p = (1 + a ^ p) mod int p"
    by (metis mod_add_right_eq dvd_eq_mod_eq_0 add.right_neutral)
  with eq show ?thesis by (simp add: add.commute)
qed

lemma fermat_nat:
  assumes "is_prime (int p)"
  shows "(int a) ^ p mod int p = int a mod int p"
proof (induction a)
  case 0
  from assms have "0 < p" by (simp add: is_prime_def)
  then show ?case by (simp add: power_0_left)
next
  case (Suc a)
  have "int (Suc a) ^ p mod int p = (int a + 1) ^ p mod int p" by (simp add: add.commute)
  also have "\<dots> = (int a ^ p + 1) mod int p" by (rule freshman [OF assms])
  also have "\<dots> = (int a ^ p mod int p + 1) mod int p" by (simp add: mod_add_left_eq)
  also have "\<dots> = (int a mod int p + 1) mod int p" by (simp only: Suc.IH)
  also have "\<dots> = int (Suc a) mod int p" by (simp add: mod_simps add.commute)
  finally show ?case .
qed

lemma fermat_little:
  assumes "is_prime p" "0 < a" "a < p"
  shows "a ^ nat (p - 1) mod p = 1"
proof -
  from assms have p: "1 < p" by (simp add: is_prime_def)
  define P where "P = nat p"
  define A where "A = nat a"
  have Pp: "int P = p" and Aa: "int A = a" using p assms by (simp_all add: P_def A_def)
  have "a ^ P mod p = a mod p" using fermat_nat [of P A] assms(1) by (simp add: Pp Aa)
  then have "p dvd a ^ P - a" by (simp add: mod_eq_dvd_iff)
  moreover have "P = Suc (nat (p - 1))" using p by (simp add: P_def)
  ultimately have "p dvd a * (a ^ nat (p - 1) - 1)" by (simp add: algebra_simps)
  moreover have "\<not> p dvd a" using assms by (simp add: zdvd_not_zless)
  ultimately have "p dvd a ^ nat (p - 1) - 1" using prime_dvd_mult [OF assms(1)] by blast
  then have "a ^ nat (p - 1) mod p = 1 mod p" by (simp add: mod_eq_dvd_iff)
  with p show ?thesis by simp
qed

lemma prime_sqrt_one:
  assumes "is_prime p" "y * y mod p = 1"
  shows "y mod p = 1 \<or> y mod p = p - 1"
proof -
  from assms have p: "1 < p" by (simp add: is_prime_def)
  from assms(2) p have "y * y mod p = 1 mod p" by simp
  then have "p dvd y * y - 1" by (simp add: mod_eq_dvd_iff)
  moreover have "y * y - 1 = (y - 1) * (y + 1)" by (simp add: algebra_simps)
  ultimately have "p dvd y - 1 \<or> p dvd y + 1" using prime_dvd_mult [OF assms(1)] by simp
  then show ?thesis
  proof
    assume "p dvd y - 1"
    then have "y mod p = 1 mod p" by (simp add: mod_eq_dvd_iff)
    with p show ?thesis by simp
  next
    assume "p dvd y + 1"
    then have "p dvd (y + 1) - p" by (rule dvd_diff) simp
    moreover have "(y + 1) - p = y - (p - 1)" by simp
    ultimately have "p dvd y - (p - 1)" by (simp only:)
    then have "y mod p = (p - 1) mod p" by (simp only: mod_eq_dvd_iff)
    moreover have "(p - 1) mod p = p - 1" using p by (intro mod_pos_pos_trivial) simp_all
    ultimately show ?thesis by simp
  qed
qed

subsection \<open>The loops of millerRabin\<close>

lemma sqrt_chain:
  assumes "is_prime p"
  shows "y ^ (2 ^ S) mod p = 1 \<Longrightarrow> y mod p = 1 \<or> (\<exists>j<S. y ^ (2 ^ j) mod p = p - 1)"
proof (induction S arbitrary: y)
  case 0
  then show ?case by simp
next
  case (Suc S)
  have sq: "(y * y) ^ (2 ^ j) = y ^ (2 ^ Suc j)" for j
    by (simp add: power_mult [symmetric] power2_eq_square [symmetric] mult.commute)
  from Suc.prems have "(y * y) ^ (2 ^ S) mod p = 1" by (simp only: sq)
  from Suc.IH [OF this] show ?case
  proof
    assume "y * y mod p = 1"
    from prime_sqrt_one [OF assms this] show ?thesis by auto
  next
    assume "\<exists>j<S. (y * y) ^ (2 ^ j) mod p = p - 1"
    then obtain j where "j < S" "y ^ (2 ^ Suc j) mod p = p - 1" by (auto simp only: sq)
    then have "Suc j < Suc S \<and> y ^ (2 ^ Suc j) mod p = p - 1" by simp
    then show ?thesis by blast
  qed
qed

lemma squareLoop_spec:
  "1 < n \<Longrightarrow> 0 \<le> x \<Longrightarrow>
   squareLoop r s x n = Inr (\<exists>j. 1 \<le> j \<and> int j \<le> s - r \<and> x ^ (2 ^ j) mod n = n - 1)"
proof (induction r s x n rule: squareLoop.induct)
  case (1 r s x n)
  show ?case
  proof (cases "r < s")
    case False
    then have "\<not> (\<exists>j. 1 \<le> j \<and> int j \<le> s - r \<and> x ^ (2 ^ j) mod n = n - 1)" by auto
    with False show ?thesis by (subst squareLoop.simps) simp
  next
    case True
    let ?x' = "x ^ 2 mod n"
    have mp: "modPow x 2 n = Inr ?x'"
      using modPow_value [of x 2 n] "1.prems" by simp
    show ?thesis
    proof (cases "?x' = n - 1")
      case hit: True
      then have "1 \<le> (1::nat) \<and> int 1 \<le> s - r \<and> x ^ (2 ^ 1) mod n = n - 1"
        using True by simp
      then have "\<exists>j. 1 \<le> j \<and> int j \<le> s - r \<and> x ^ (2 ^ j) mod n = n - 1" by blast
      with True mp hit show ?thesis by (subst squareLoop.simps) simp
    next
      case miss: False
      have x': "0 \<le> ?x'" using "1.prems" by simp
      have sq: "?x' ^ (2 ^ j) mod n = x ^ (2 ^ Suc j) mod n" for j
        by (simp add: power_mod power_mult [symmetric] mult.commute)
      have IH: "squareLoop (r + 1) s ?x' n
                = Inr (\<exists>j. 1 \<le> j \<and> int j \<le> s - (r + 1) \<and> ?x' ^ (2 ^ j) mod n = n - 1)"
        using "1.IH" [OF True mp miss "1.prems"(1) x'] .
      have "(\<exists>j. 1 \<le> j \<and> int j \<le> s - (r + 1) \<and> ?x' ^ (2 ^ j) mod n = n - 1)
            \<longleftrightarrow> (\<exists>j. 1 \<le> j \<and> int j \<le> s - r \<and> x ^ (2 ^ j) mod n = n - 1)"
        (is "?L \<longleftrightarrow> ?R")
      proof
        assume ?L
        then obtain j where j: "1 \<le> j" "int j \<le> s - (r + 1)" "x ^ (2 ^ Suc j) mod n = n - 1"
          by (auto simp only: sq)
        then have "1 \<le> Suc j \<and> int (Suc j) \<le> s - r \<and> x ^ (2 ^ Suc j) mod n = n - 1" by simp
        then show ?R by blast
      next
        assume ?R
        then obtain j where j: "1 \<le> j" "int j \<le> s - r" "x ^ (2 ^ j) mod n = n - 1" by blast
        with miss have "j \<noteq> 1" by auto
        with j(1) obtain i where i: "j = Suc i" "1 \<le> i" by (cases j) auto
        with j have "1 \<le> i \<and> int i \<le> s - (r + 1) \<and> ?x' ^ (2 ^ i) mod n = n - 1"
          by (simp only: sq) simp
        then show ?L by blast
      qed
      with IH True mp miss show ?thesis by (subst squareLoop.simps) simp
    qed
  qed
qed

lemma drawWitness_range:
  assumes "4 < n" "n - 4 < 2 ^ 1024 - 2 ^ 970" "0 \<le> u" "u < 1"
  shows "\<exists>a. drawWitness n u = Inr a \<and> 2 \<le> a \<and> a \<le> n - 3"
proof -
  have pos: "0 < real_of_int (n - 4)" using assms(1) by simp
  have "0 \<le> u * real_of_int (n - 4)" using assms(3) pos by simp
  then have lo: "0 \<le> \<lfloor>u * real_of_int (n - 4)\<rfloor>" by simp
  have "u * real_of_int (n - 4) < real_of_int (n - 4)" using assms(4) pos by simp
  then have hi: "\<lfloor>u * real_of_int (n - 4)\<rfloor> < n - 4" by (simp add: floor_less_iff)
  have "\<bar>n - 4\<bar> = n - 4" using assms(1) by simp
  with assms(2) have "drawWitness n u = Inr (2 + \<lfloor>u * real_of_int (n - 4)\<rfloor>)"
    by (simp add: drawWitness_def)
  with lo hi show ?thesis by simp
qed

text \<open>Every integer of \<open>[2, n - 3]\<close> is the draw for some \<open>u\<close> in \<open>[0, 1)\<close>.\<close>

lemma drawWitness_reaches:
  assumes "4 < n" "n - 4 < 2 ^ 1024 - 2 ^ 970" "2 \<le> a" "a \<le> n - 3"
  shows "\<exists>u. 0 \<le> u \<and> u < 1 \<and> drawWitness n u = Inr a"
proof -
  define u where "u = (real_of_int (a - 2) + 1 / 2) / real_of_int (n - 4)"
  have pos: "0 < real_of_int (n - 4)" using assms(1) by simp
  have prod: "u * real_of_int (n - 4) = real_of_int (a - 2) + 1 / 2"
    using pos by (simp add: u_def)
  have "\<lfloor>real_of_int (a - 2) + 1 / 2\<rfloor> = a - 2" by linarith
  with prod have fl: "\<lfloor>u * real_of_int (n - 4)\<rfloor> = a - 2" by simp
  have u0: "0 \<le> u" using assms(3) pos by (simp add: u_def)
  have "real_of_int (a - 2) + 1 / 2 < real_of_int (n - 4)"
  proof -
    from assms(4) have "a - 2 + 1 \<le> n - 4" by simp
    then have "real_of_int (a - 2) + 1 \<le> real_of_int (n - 4)" by linarith
    then show ?thesis by simp
  qed
  then have u1: "u < 1" using pos by (simp add: u_def)
  have "\<bar>n - 4\<bar> = n - 4" using assms(1) by simp
  with assms(2) fl have "drawWitness n u = Inr a" by (simp add: drawWitness_def)
  with u0 u1 show ?thesis by blast
qed

lemma round_passes:
  assumes p: "is_prime n" and d: "n - 1 = d * 2 ^ S" "0 < d" and a: "2 \<le> a" "a \<le> n - 3"
  defines "x \<equiv> a ^ nat d mod n"
  shows "x = 1 \<or> x = n - 1 \<or> (\<exists>j. 1 \<le> j \<and> j < S \<and> x ^ (2 ^ j) mod n = n - 1)"
proof -
  from p have n: "1 < n" by (simp add: is_prime_def)
  have "nat (n - 1) = nat d * 2 ^ S"
    using d by (simp add: nat_mult_distrib nat_power_eq)
  moreover have "a ^ nat (n - 1) mod n = 1"
    using a by (intro fermat_little [OF p]) simp_all
  ultimately have "x ^ (2 ^ S) mod n = 1"
    by (simp add: x_def power_mod power_mult)
  from sqrt_chain [OF p this] have "x mod n = 1 \<or> (\<exists>j<S. x ^ (2 ^ j) mod n = n - 1)" .
  moreover have xm: "x mod n = x" by (simp add: x_def)
  ultimately consider "x = 1" | j where "j < S" "x ^ (2 ^ j) mod n = n - 1" by auto
  then show ?thesis
  proof cases
    case 1 then show ?thesis by simp
  next
    case (2 j)
    show ?thesis
    proof (cases j)
      case 0
      with 2 xm show ?thesis by simp
    next
      case (Suc i)
      with 2 have "1 \<le> j \<and> j < S \<and> x ^ (2 ^ j) mod n = n - 1" by simp
      then show ?thesis by blast
    qed
  qed
qed

lemma witnessLoop_prime:
  assumes p: "is_prime n" and n: "4 < n" "n - 4 < 2 ^ 1024 - 2 ^ 970"
    and d: "n - 1 = d * 2 ^ S" "0 < d"
    and rnd: "\<And>j. 0 \<le> rnd j \<and> rnd j < 1"
  shows "witnessLoop rnd n (int S) d k i = Inr True"
proof (induction "nat (k - i)" arbitrary: i)
  case 0
  then have "\<not> i < k" by simp
  then show ?case by (subst witnessLoop.simps) simp
next
  case (Suc m)
  then have ik: "i < k" and m: "m = nat (k - (i + 1))" by simp_all
  from rnd have "0 \<le> rnd (nat i)" "rnd (nat i) < 1" by simp_all
  from drawWitness_range [OF n this] obtain a
    where a: "drawWitness n (rnd (nat i)) = Inr a" "2 \<le> a" "a \<le> n - 3" by blast
  let ?x = "a ^ nat d mod n"
  have mp: "modPow a d n = Inr ?x"
    using modPow_value [of a d n] a d n by simp
  have x0: "0 \<le> ?x" using n by simp
  have sq: "squareLoop 1 (int S) ?x n
            = Inr (\<exists>j. 1 \<le> j \<and> int j \<le> int S - 1 \<and> ?x ^ (2 ^ j) mod n = n - 1)"
    using n x0 by (intro squareLoop_spec) simp_all
  have rest: "witnessLoop rnd n (int S) d k (i + 1) = Inr True"
    using Suc.hyps(1) [OF m] .
  from round_passes [OF p d a(2,3)]
  consider "?x = 1 \<or> ?x = n - 1"
    | "\<not> (?x = 1 \<or> ?x = n - 1)" "\<exists>j. 1 \<le> j \<and> j < S \<and> ?x ^ (2 ^ j) mod n = n - 1"
    by blast
  then show ?case
  proof cases
    case 1
    with ik a(1) mp rest show ?thesis by (subst witnessLoop.simps) simp
  next
    case 2
    from 2(2) have "\<exists>j. 1 \<le> j \<and> int j \<le> int S - 1 \<and> ?x ^ (2 ^ j) mod n = n - 1"
      by (metis of_nat_less_iff zle_diff1_eq)
    with sq have "squareLoop 1 (int S) ?x n = Inr True" by simp
    with ik a(1) mp rest 2(1) show ?thesis by (subst witnessLoop.simps) simp
  qed
qed

lemma prime_odd:
  assumes "is_prime n" "2 < n"
  shows "n mod 2 = 1"
proof -
  from assms have "\<not> 2 dvd n" unfolding is_prime_def by auto
  then show ?thesis by presburger
qed

lemma millerRabin_prime:
  assumes p: "is_prime n" and small: "n - 4 < 2 ^ 1024 - 2 ^ 970"
    and rnd: "\<And>j. 0 \<le> rnd j \<and> rnd j < 1"
  shows "millerRabin rnd n k = Some (Inr True)"
proof (cases "n = 2 \<or> n = 3")
  case True
  then show ?thesis by (auto simp: millerRabin_def)
next
  case False
  from p have "1 < n" by (simp add: is_prime_def)
  with False have n2: "2 < n" by simp
  from prime_odd [OF p n2] have odd: "n mod 2 = 1" .
  with n2 False have n4: "4 < n" by presburger
  from odd n2 have sm: "n smod 2 \<noteq> 0" by (simp add: smod_nonneg_eq_mod)
  from n2 have "0 < n - 1" by simp
  from factorTwos_pos [OF this, of 0] obtain s d
    where f: "factorTwos 0 (n - 1) = Some (s, d)" "0 \<le> s" "0 < d" "n - 1 = d * 2 ^ nat (s - 0)"
    by blast
  from f(2) have s: "s = int (nat s)" by simp
  have "witnessLoop rnd n (int (nat s)) d k 0 = Inr True"
    using f by (intro witnessLoop_prime [OF p n4 small _ _ rnd]) simp_all
  with s have "witnessLoop rnd n s d k 0 = Inr True" by simp
  with False n2 sm f(1) show ?thesis by (simp add: millerRabin_def)
qed

lemma millerRabin_overflow:
  assumes "n mod 2 = 1" "2 ^ 1024 - 2 ^ 970 \<le> n - 4" "1 \<le> k"
  shows "millerRabin rnd n k = Some (Inl RangeError)"
proof -
  have "(2::int) ^ 970 < 2 ^ 1024" by (rule power_strict_increasing) simp_all
  moreover have "(1::int) \<le> 2 ^ 970" by (rule one_le_power) simp
  ultimately have n: "4 < n" using assms(2) by linarith
  from assms(1) n have sm: "n smod 2 \<noteq> 0" by (simp add: smod_nonneg_eq_mod)
  from n have "0 < n - 1" by simp
  from factorTwos_pos [OF this, of 0] obtain s d
    where f: "factorTwos 0 (n - 1) = Some (s, d)" by blast
  have "\<bar>n - 4\<bar> = n - 4" using n by simp
  with assms(2) have "drawWitness n (rnd (nat 0)) = Inl RangeError"
    by (simp add: drawWitness_def)
  with assms(3) have "witnessLoop rnd n s d k 0 = Inl RangeError"
    by (subst witnessLoop.simps) simp
  with n sm f show ?thesis by (simp add: millerRabin_def)
qed

subsection \<open>The guards, the draw and the verdict on primes\<close>

text \<open>
  C3. millerRabin returns true when \<open>n\<close> is 2 or 3, false for every \<open>n < 2\<close> and false
  for every even \<open>n > 2\<close>, whatever the round count and the random values are.
\<close>

theorem millerRabin_guards:
  "(n = 2 \<or> n = 3 \<longrightarrow> millerRabin rnd n k = Some (Inr True))
   \<and> (n < 2 \<longrightarrow> millerRabin rnd n k = Some (Inr False))
   \<and> (2 < n \<and> n mod 2 = 0 \<longrightarrow> millerRabin rnd n k = Some (Inr False))"
proof (intro conjI impI)
  assume "n = 2 \<or> n = 3"
  then show "millerRabin rnd n k = Some (Inr True)" by (auto simp: millerRabin_def)
next
  assume "n < 2"
  then show "millerRabin rnd n k = Some (Inr False)" by (simp add: millerRabin_def)
next
  assume a: "2 < n \<and> n mod 2 = 0"
  then have "n smod 2 = 0" by (simp add: smod_nonneg_eq_mod)
  moreover from a have "n \<noteq> 3" by presburger
  ultimately show "millerRabin rnd n k = Some (Inr False)" using a by (simp add: millerRabin_def)
qed

theorem millerRabin_guards_witness:
  "millerRabin (\<lambda>i. 1 / 2) 2 5 = Some (Inr True)
   \<and> millerRabin (\<lambda>i. 1 / 2) 3 5 = Some (Inr True)
   \<and> millerRabin (\<lambda>i. 1 / 2) (- 7) 5 = Some (Inr False)
   \<and> millerRabin (\<lambda>i. 1 / 2) 1 5 = Some (Inr False)
   \<and> millerRabin (\<lambda>i. 1 / 2) 100 5 = Some (Inr False)"
  using millerRabin_guards [of 2 "\<lambda>i. 1 / 2" 5] millerRabin_guards [of 3 "\<lambda>i. 1 / 2" 5]
    millerRabin_guards [of "- 7" "\<lambda>i. 1 / 2" 5] millerRabin_guards [of 1 "\<lambda>i. 1 / 2" 5]
    millerRabin_guards [of 100 "\<lambda>i. 1 / 2" 5]
  by simp

text \<open>
  C4. The claim has every integer of \<open>[2, n - 2]\<close> as a possible draw. The code
  never draws \<open>n - 2\<close>: for every odd \<open>n > 4\<close> and every value \<open>u\<close> of
  \<^verbatim>\<open>Math.random()\<close> in \<open>[0, 1)\<close> the draw differs from \<open>n - 2\<close> (it lies in
  \<open>[2, n - 3]\<close> by \<open>drawWitness_range\<close>, and every integer of that interval is
  drawn for some \<open>u\<close> by \<open>drawWitness_reaches\<close>; or it raises).
\<close>

theorem drawWitness_never_n_minus_2:
  "4 < n \<Longrightarrow> 0 \<le> u \<Longrightarrow> u < 1 \<Longrightarrow> drawWitness n u \<noteq> Inr (n - 2)"
proof
  assume n: "4 < n" and u: "0 \<le> u" "u < 1" and eq: "drawWitness n u = Inr (n - 2)"
  then have "\<lfloor>u * real_of_int (n - 4)\<rfloor> = n - 4"
    by (simp add: drawWitness_def split: if_splits)
  moreover have "u * real_of_int (n - 4) < real_of_int (n - 4)" using n u by simp
  then have "\<lfloor>u * real_of_int (n - 4)\<rfloor> < n - 4" by (simp add: floor_less_iff)
  ultimately show False by simp
qed

theorem drawWitness_never_n_minus_2_witness:
  "(4::int) < 7 \<and> (0::real) \<le> 9 / 10 \<and> (9 / 10 :: real) < 1
   \<and> drawWitness 7 (9 / 10) = Inr 4 \<and> drawWitness 7 (9 / 10) \<noteq> Inr (7 - 2)"
  using drawWitness_never_n_minus_2 [of 7 "9 / 10"] by (simp add: drawWitness_def)

text \<open>
  The primes that the specification lists for its tests (2, 3, 5, 97 and 7919), with five
  rounds and any random values. Primality of 7919 is checked by trial division up to 88.
\<close>

lemma is_prime_by_trial_division:
  assumes n: "1 < n" and small: "n < (r + 1) * (r + 1)" and r: "0 \<le> r"
    and none: "\<forall>d\<in>{2..r}. \<not> d dvd n"
  shows "is_prime n"
  unfolding is_prime_def
proof (intro conjI ballI notI)
  show "1 < n" by (fact n)
next
  fix d assume d: "d \<in> {2..<n}" and dvd: "d dvd n"
  define e where "e = n div d"
  from dvd have ne: "n = d * e" by (simp add: e_def)
  have e2: "2 \<le> e"
  proof (rule ccontr)
    assume "\<not> 2 \<le> e"
    then consider "e \<le> 0" | "e = 1" by linarith
    then show False
    proof cases
      case 1
      with d have "d * e \<le> 0" by (simp add: mult_nonneg_nonpos)
      with n ne show False by simp
    next
      case 2
      with ne d show False by simp
    qed
  qed
  have "d \<le> r \<or> e \<le> r"
  proof (rule ccontr)
    assume "\<not> (d \<le> r \<or> e \<le> r)"
    then have "r + 1 \<le> d" "r + 1 \<le> e" by simp_all
    with r have "(r + 1) * (r + 1) \<le> d * e" by (intro mult_mono) simp_all
    with small ne show False by simp
  qed
  then show False
  proof
    assume "d \<le> r"
    with d have "d \<in> {2..r}" by simp
    with none dvd show False by blast
  next
    assume "e \<le> r"
    with e2 have "e \<in> {2..r}" by simp
    moreover have "e dvd n" using ne by simp
    ultimately show False using none by blast
  qed
qed

lemma is_prime_7919: "is_prime 7919"
  by (rule is_prime_by_trial_division [where r = 88]) code_simp+

lemma millerRabin_curated_primes:
  assumes "\<And>j. 0 \<le> rnd j \<and> rnd j < 1"
  shows "millerRabin rnd 2 5 = Some (Inr True) \<and> millerRabin rnd 3 5 = Some (Inr True)
       \<and> millerRabin rnd 5 5 = Some (Inr True) \<and> millerRabin rnd 97 5 = Some (Inr True)
       \<and> millerRabin rnd 7919 5 = Some (Inr True)"
proof -
  have p: "is_prime 2" "is_prime 3" "is_prime 5" "is_prime 97" by code_simp+
  have b: "(2::int) - 4 < 2 ^ 1024 - 2 ^ 970" "(3::int) - 4 < 2 ^ 1024 - 2 ^ 970"
    "(5::int) - 4 < 2 ^ 1024 - 2 ^ 970" "(97::int) - 4 < 2 ^ 1024 - 2 ^ 970"
    "(7919::int) - 4 < 2 ^ 1024 - 2 ^ 970" by simp_all
  show ?thesis
    using millerRabin_prime [OF p(1) b(1) assms] millerRabin_prime [OF p(2) b(2) assms]
      millerRabin_prime [OF p(3) b(3) assms] millerRabin_prime [OF p(4) b(4) assms]
      millerRabin_prime [OF is_prime_7919 b(5) assms]
    by simp
qed

text \<open>
  C1. The claim has millerRabin return true for every prime. Below the overflow bound of
  \<^verbatim>\<open>Number\<close> it does (\<open>millerRabin_prime\<close>, \<open>millerRabin_curated_primes\<close>). At the Mersenne prime
  \<open>2^1279 - 1\<close>, a value of 386 decimal digits, the first draw raises a RangeError
  instead, whatever \<^verbatim>\<open>Math.random()\<close> returns.
\<close>

theorem millerRabin_large_prime_throws:
  "millerRabin rnd (2 ^ 1279 - 1) 5 = Some (Inl RangeError)"
  by (rule millerRabin_overflow) simp_all

section \<open>Verification of message processing and of the polling loop\<close>

subsection \<open>Effects\<close>

lemma emit_simps [simp]:
  "trace (emit es w) = trace w @ es"
  "timers (emit es w) = timers w"
  "outQueueHandle (emit es w) = outQueueHandle w"
  by (simp_all add: emit_def)

lemma emit_emit [simp]: "emit es2 (emit es1 w) = emit (es1 @ es2) w"
  by (simp add: emit_def)

lemma schedule_simps [simp]:
  "trace (schedule d t w) = trace w @ [Schedule d t]"
  "timers (schedule d t w) = timers w @ [(d, t)]"
  "outQueueHandle (schedule d t w) = outQueueHandle w"
  by (simp_all add: schedule_def)

lemma published_append:
  "trace w' = trace w @ es \<Longrightarrow>
   published w' = published w
     @ List.map_filter (\<lambda>e. case e of MQPut h m \<Rightarrow> Some (h, m) | _ \<Rightarrow> None) es"
  by (simp add: published_def List.map_filter_def)

lemma receives_simps [simp]:
  "receives (emit es w) = receives w + length (filter (\<lambda>e. case e of MQGet h \<Rightarrow> True | _ \<Rightarrow> False) es)"
  "receives (schedule d t w) = receives w"
  "receives (w\<lparr>timers := ts\<rparr>) = receives w"
  by (simp_all add: receives_def)

lemma connects_simps [simp]:
  "connects (emit es w) = connects w + length (filter (\<lambda>e. case e of MQConnx \<Rightarrow> True | _ \<Rightarrow> False) es)"
  "connects (schedule d t w) = connects w"
  "connects (w\<lparr>timers := ts\<rparr>) = connects w"
  by (simp_all add: connects_def)

lemma emit_timers_update [simp]: "emit es (w\<lparr>timers := ts\<rparr>) = (emit es w)\<lparr>timers := ts\<rparr>"
  by (simp add: emit_def)

subsection \<open>sendResponse\<close>

text \<open>
  C10. While the output queue handle is not set, sendResponse publishes nothing and
  raises nothing: it returns after one line on the error console, and leaves the
  published messages, the scheduled tasks and the handle as they were.
\<close>

theorem sendResponse_without_handle:
  assumes "outQueueHandle w = None"
  shows "sendResponse js t responseObj w
           = emit [Console Stderr ''Output queue handle is not available. Cannot send response.''] w
         \<and> published (sendResponse js t responseObj w) = published w
         \<and> timers (sendResponse js t responseObj w) = timers w
         \<and> outQueueHandle (sendResponse js t responseObj w) = None"
proof -
  have eq: "sendResponse js t responseObj w
        = emit [Console Stderr ''Output queue handle is not available. Cannot send response.''] w"
    using assms by (simp add: sendResponse_def)
  moreover have "published (emit [Console Stderr ''Output queue handle is not available. Cannot send response.''] w) = published w"
    by (simp add: published_def List.map_filter_def)
  ultimately show ?thesis using assms by simp
qed

theorem sendResponse_without_handle_witness:
  "sendResponse sample_builtins sample_turn
     (JObject [(''id'', JNumber 1), (''value'', JString ''97''), (''prime'', JBool True)])
     initial_world
   = emit [Console Stderr ''Output queue handle is not available. Cannot send response.'']
       initial_world
   \<and> published (sendResponse sample_builtins sample_turn
        (JObject [(''id'', JNumber 1), (''value'', JString ''97''), (''prime'', JBool True)])
        initial_world) = []"
proof -
  let ?resp = "JObject [(''id'', JNumber 1), (''value'', JString ''97''), (''prime'', JBool True)]"
  have none: "outQueueHandle initial_world = None" by (simp add: initial_world_def)
  have nothing: "published initial_world = []"
    by (simp add: published_def initial_world_def List.map_filter_def)
  from sendResponse_without_handle [OF none, of sample_builtins sample_turn ?resp]
  have a: "sendResponse sample_builtins sample_turn ?resp initial_world
           = emit [Console Stderr ''Output queue handle is not available. Cannot send response.'']
               initial_world"
    and b: "published (sendResponse sample_builtins sample_turn ?resp initial_world)
            = published initial_world"
    by blast+
  have "published (sendResponse sample_builtins sample_turn ?resp initial_world) = []"
    unfolding b by (fact nothing)
  with a show ?thesis by (rule conjI)
qed

subsection \<open>The receive buffer\<close>

lemma Buffer_fill_alloc:
  "Buffer_fill (Buffer_alloc n) bytes = take n bytes @ replicate (n - length bytes) (CHR 0x00)"
  by (simp add: Buffer_fill_def Buffer_alloc_def)

lemma Buffer_slice_0:
  "Buffer_slice buf 0 len
     = take (nat (if len < 0 then max (int (length buf) + len) 0 else min len (int (length buf)))) buf"
  by (simp add: Buffer_slice_def Let_def)

lemma received_message:
  "Buffer_slice (Buffer_fill (Buffer_alloc 1024) bytes) 0 len
   = take (nat (if len < 0 then max (1024 + len) 0 else min len 1024))
       (take 1024 bytes @ replicate (1024 - length bytes) (CHR 0x00))"
proof -
  have "length (take 1024 bytes @ replicate (1024 - length bytes) (CHR 0x00)) = 1024"
    by simp
  then show ?thesis
    by (simp only: Buffer_fill_alloc Buffer_slice_0) simp
qed

text \<open>
  C9. A polling iteration that receives a message reads it into a buffer of 1024
  bytes: the buffer holds the first 1024 bytes of what was received, and zeros after
  them. processMessage is handed the first \<open>min len 1024\<close> bytes of that buffer (for a
  negative \<open>len\<close>, all but the last \<open>- len\<close>): the first \<open>min len 1024\<close> bytes of the
  message when \<open>len\<close> is within it, the whole message when \<open>len\<close> is its length and
  that is at most 1024, and never a payload longer than 1024 bytes.
\<close>

theorem getMessage_buffer_bound:
  assumes "get_answer t = GetOk bytes len"
  shows "let buf = take 1024 bytes @ replicate (1024 - length bytes) (CHR 0x00);
             msgBuffer = take (nat (if len < 0 then max (1024 + len) 0 else min len 1024)) buf
         in getMessage js t hIn w
              = (case processMessage js t msgBuffer
                       (emit [Console Stdout ''Polling for a message...'', MQGet hIn,
                              Console Stdout ''Message received, length:''] w) of
                   None \<Rightarrow> None
                 | Some w2 \<Rightarrow> Some (schedule SetImmediate (GetMessage hIn) w2))
          \<and> length buf = 1024
          \<and> take (length bytes) buf = take 1024 bytes
          \<and> length msgBuffer \<le> 1024
          \<and> (0 \<le> len \<longrightarrow> length msgBuffer = nat (min len 1024))
          \<and> (0 \<le> len \<and> len \<le> int (length bytes)
               \<longrightarrow> msgBuffer = take (nat (min len 1024)) bytes)
          \<and> (len = int (length bytes) \<and> length bytes \<le> 1024 \<longrightarrow> msgBuffer = bytes)
          \<and> (\<forall>payload. 1024 < length payload \<longrightarrow> msgBuffer \<noteq> payload)"
proof -
  define buf where "buf = take 1024 bytes @ replicate (1024 - length bytes) (CHR 0x00)"
  define k where "k = nat (if len < 0 then max (1024 + len) 0 else min len 1024)"
  define msgBuffer where "msgBuffer = take k buf"
  have lb: "length buf = 1024" by (simp add: buf_def)
  have k: "k \<le> 1024" by (auto simp add: k_def)
  have sliced: "Buffer_slice (Buffer_fill (Buffer_alloc 1024) bytes) 0 len = msgBuffer"
    by (simp only: received_message msgBuffer_def k_def buf_def)
  have g: "getMessage js t hIn w
             = (case processMessage js t msgBuffer
                      (emit [Console Stdout ''Polling for a message...'', MQGet hIn,
                             Console Stdout ''Message received, length:''] w) of
                  None \<Rightarrow> None
                | Some w2 \<Rightarrow> Some (schedule SetImmediate (GetMessage hIn) w2))"
    using assms by (simp add: getMessage_def Let_def sliced)
  have head: "take (length bytes) buf = take 1024 bytes"
    by (simp add: buf_def min_def)
  have lm: "length msgBuffer \<le> 1024" using lb k by (simp add: msgBuffer_def)
  have ex: "0 \<le> len \<longrightarrow> length msgBuffer = nat (min len 1024)"
    using lb by (auto simp add: msgBuffer_def k_def min_def)
  have within: "0 \<le> len \<and> len \<le> int (length bytes)
                \<longrightarrow> msgBuffer = take (nat (min len 1024)) bytes"
  proof
    assume a: "0 \<le> len \<and> len \<le> int (length bytes)"
    then have kk: "k = nat (min len 1024)" by (simp add: k_def)
    from a have "k \<le> length (take 1024 bytes)" by (simp add: kk min_def) linarith
    then have "take k buf = take k (take 1024 bytes)" by (simp add: buf_def)
    also have "\<dots> = take k bytes" using k by (simp add: min_def)
    finally show "msgBuffer = take (nat (min len 1024)) bytes" by (simp add: msgBuffer_def kk)
  qed
  have whole: "len = int (length bytes) \<and> length bytes \<le> 1024 \<longrightarrow> msgBuffer = bytes"
  proof
    assume a: "len = int (length bytes) \<and> length bytes \<le> 1024"
    with within have "msgBuffer = take (nat (min len 1024)) bytes" by simp
    with a show "msgBuffer = bytes" by (simp add: min_def)
  qed
  have ne: "\<forall>payload. 1024 < length payload \<longrightarrow> msgBuffer \<noteq> payload" using lm by auto
  from g lb head lm ex within whole ne
  show ?thesis
    by (simp only: Let_def buf_def [symmetric] k_def [symmetric] msgBuffer_def [symmetric])
qed

theorem getMessage_buffer_bound_witness:
  "getMessage sample_builtins sample_turn 2 initial_world
     = (case processMessage sample_builtins sample_turn sample_message
              (emit [Console Stdout ''Polling for a message...'', MQGet 2,
                     Console Stdout ''Message received, length:''] initial_world) of
          None \<Rightarrow> None
        | Some w2 \<Rightarrow> Some (schedule SetImmediate (GetMessage 2) w2))
   \<and> getMessage sample_builtins
        (sample_turn\<lparr>get_answer := GetOk (replicate 2000 (CHR ''7'')) 2000\<rparr>) 2 initial_world
     = (case processMessage sample_builtins
              (sample_turn\<lparr>get_answer := GetOk (replicate 2000 (CHR ''7'')) 2000\<rparr>)
              (replicate 1024 (CHR ''7''))
              (emit [Console Stdout ''Polling for a message...'', MQGet 2,
                     Console Stdout ''Message received, length:''] initial_world) of
          None \<Rightarrow> None
        | Some w2 \<Rightarrow> Some (schedule SetImmediate (GetMessage 2) w2))"
proof -
  let ?long = "sample_turn\<lparr>get_answer := GetOk (replicate 2000 (CHR ''7'')) 2000\<rparr>"
  have short: "get_answer sample_turn = GetOk sample_message 21"
    by (simp add: sample_turn_def)
  have long: "get_answer ?long = GetOk (replicate 2000 (CHR ''7'')) 2000" by simp
  have cut: "take (nat (if (21::int) < 0 then max (1024 + 21) 0 else min 21 1024))
               (take 1024 sample_message @ replicate (1024 - length sample_message) (CHR 0x00))
             = sample_message"
    by (simp add: sample_message_def)
  have cut': "take (nat (if (2000::int) < 0 then max (1024 + 2000) 0 else min 2000 1024))
               (take 1024 (replicate 2000 (CHR ''7''))
                  @ replicate (1024 - length (replicate 2000 (CHR ''7''))) (CHR 0x00))
             = replicate 1024 (CHR ''7'')"
    by simp
  from getMessage_buffer_bound [OF short, of sample_builtins 2 initial_world]
    getMessage_buffer_bound [OF long, of sample_builtins 2 initial_world]
  show ?thesis
    unfolding Let_def cut cut' by blast
qed

subsection \<open>processMessage\<close>

lemma hasOwnProperty_True:
  assumes "hasOwnProperty data key = Inr True"
  shows "\<exists>i. property data key = Inr (Some i)"
  using assms
  by (cases data) (auto simp: hasOwnProperty_def property_def split: option.splits)

text \<open>The path of processMessage on which a reply is sent.\<close>

lemma processMessage_success:
  assumes parse: "JSON_parse js msg = Inr data"
    and own: "hasOwnProperty data ''id'' = Inr True"
    and idv: "property data ''id'' = Inr (Some i)"
    and printable: "\<not> toString_raises i"
    and val: "property data ''value'' = Inr (Some v)"
    and big: "BigInt js v = Inr n"
    and mr: "millerRabin (random_values t) n 5 = Some (Inr p)"
    and h: "outQueueHandle w = Some h"
    and put: "put_answer t = None"
  shows "processMessage js t msg w
         = Some (emit [Console Stdout ''Processing a message...'',
                       Console Stdout ''Record is prime / not prime'',
                       MQPut h (JSON_stringify js
                                  (JObject [(''id'', i), (''value'', v), (''prime'', JBool p)])),
                       Console Stdout ''Response sent to''] w)"
proof -
  have mf: "missing_fields data = Inr False"
    using own val by (simp add: missing_fields_def)
  have line: "record_line data = Inr (Console Stdout ''Record is prime / not prime'')"
    using idv printable by (simp add: record_line_def)
  have obj: "object_literal [(''id'', property data ''id''), (''value'', property data ''value''),
                 (''prime'', Inr (Some (JBool p)))]
             = JObject [(''id'', i), (''value'', v), (''prime'', JBool p)]"
    using idv val by (simp add: object_literal_def List.map_filter_def)
  let ?w1 = "emit [Console Stdout ''Processing a message...''] w"
  let ?resp = "JObject [(''id'', i), (''value'', v), (''prime'', JBool p)]"
  let ?w2 = "sendResponse js t ?resp (emit [Console Stdout ''Record is prime / not prime''] ?w1)"
  have body: "processMessage_try js t msg ?w1 = Some (Inr ?w2)"
    using parse mf val big mr line obj by (simp add: processMessage_try_def)
  then have pm: "processMessage js t msg w = Some ?w2"
    by (simp add: processMessage_def Let_def)
  have "?w2 = emit [Console Stdout ''Processing a message...'',
                    Console Stdout ''Record is prime / not prime'',
                    MQPut h (JSON_stringify js ?resp), Console Stdout ''Response sent to''] w"
    using h put by (simp add: sendResponse_def)
  with pm show ?thesis by simp
qed

text \<open>
  The path on which the template literal of the record line raises: an id that does not
  convert to a string, such as the object with the one property \<^verbatim>\<open>toString\<close>,
  gets no reply.
\<close>

lemma processMessage_unprintable_id:
  assumes parse: "JSON_parse js msg = Inr data"
    and own: "hasOwnProperty data ''id'' = Inr True"
    and idv: "property data ''id'' = Inr (Some i)"
    and unprintable: "toString_raises i"
    and val: "property data ''value'' = Inr (Some v)"
    and big: "BigInt js v = Inr n"
    and mr: "millerRabin (random_values t) n 5 = Some (Inr p)"
  shows "processMessage js t msg w
         = Some (emit [Console Stdout ''Processing a message...'',
                       Console Stderr ''Error parsing JSON:''] w)"
proof -
  have mf: "missing_fields data = Inr False"
    using own val by (simp add: missing_fields_def)
  have line: "record_line data = Inl TypeError"
    using idv unprintable by (simp add: record_line_def)
  have "processMessage_try js t msg (emit [Console Stdout ''Processing a message...''] w)
        = Some (Inl TypeError)"
    using parse mf val big mr line by (simp add: processMessage_try_def)
  then show ?thesis by (simp add: processMessage_def Let_def)
qed

lemma toString_raises_example: "toString_raises (JObject [(''toString'', JNumber 0)])"
  by simp

lemma published_after_success:
  "published (emit [Console Stdout a, Console Stdout b, MQPut h m, Console Stdout c] w)
   = published w @ [(h, m)]"
  by (simp add: published_def List.map_filter_def)




text \<open>processMessage and a polling iteration always return.\<close>

lemma processMessage_returns: "processMessage js t msg w \<noteq> None"
proof -
  have "processMessage_try js t msg w1 \<noteq> None" for w1
    by (auto simp: processMessage_try_def millerRabin_returns
        split: sum.splits option.splits bool.splits)
  then show ?thesis
    by (simp add: processMessage_def Let_def split: sum.splits option.splits)
qed

lemma getMessage_returns: "getMessage js t hIn w \<noteq> None"
  by (simp add: getMessage_def Let_def processMessage_returns
      split: received.splits option.splits)

lemma processMessage_malformed:
  assumes parse: "JSON_parse js msg = Inr data"
    and bad: "hasOwnProperty data ''id'' \<noteq> Inr True \<or> property data ''value'' = Inr None
              \<or> (\<exists>v e. property data ''value'' = Inr (Some v) \<and> BigInt js v = Inl e)"
  shows "\<exists>line. processMessage js t msg w
           = Some (emit [Console Stdout ''Processing a message...'', Console Stderr line] w)"
proof -
  let ?w1 = "emit [Console Stdout ''Processing a message...''] w"
  consider e where "missing_fields data = Inl e" | "missing_fields data = Inr True"
    | v e where "missing_fields data = Inr False" "property data ''value'' = Inr (Some v)"
        "BigInt js v = Inl e"
  proof (cases "hasOwnProperty data ''id''")
    case (Inl e)
    then have "missing_fields data = Inl e" by (simp add: missing_fields_def)
    then show ?thesis using that by blast
  next
    case (Inr b)
    show ?thesis
    proof (cases b)
      case False
      with Inr have "missing_fields data = Inr True" by (simp add: missing_fields_def)
      then show ?thesis using that by blast
    next
      case True
      with Inr have "hasOwnProperty data ''id'' = Inr True" by simp
      from hasOwnProperty_True [OF this] obtain i where "property data ''id'' = Inr (Some i)"
        by blast
      then obtain kvs where "data = JObject kvs"
        by (cases data) (auto simp: property_def)
      then obtain r where r: "property data ''value'' = Inr r" by (simp add: property_def)
      show ?thesis
      proof (cases r)
        case None
        with r Inr True have "missing_fields data = Inr True" by (simp add: missing_fields_def)
        then show ?thesis using that by blast
      next
        case (Some v)
        with r Inr True have mf: "missing_fields data = Inr False" by (simp add: missing_fields_def)
        from bad Inr True r Some obtain e where "BigInt js v = Inl e" by auto
        with mf r Some show ?thesis using that by blast
      qed
    qed
  qed
  then show ?thesis
  proof cases
    case 1
    then have "processMessage_try js t msg ?w1 = Some (Inl e)"
      using parse by (simp add: processMessage_try_def)
    then have "processMessage js t msg w
           = Some (emit [Console Stdout ''Processing a message...'',
                         Console Stderr ''Error parsing JSON:''] w)"
      by (simp add: processMessage_def Let_def)
    then show ?thesis by blast
  next
    case 2
    then have "processMessage_try js t msg ?w1
        = Some (Inr (emit [Console Stderr ''Message JSON missing required fields:''] ?w1))"
      using parse by (simp add: processMessage_try_def)
    then have "processMessage js t msg w
           = Some (emit [Console Stdout ''Processing a message...'',
                         Console Stderr ''Message JSON missing required fields:''] w)"
      by (simp add: processMessage_def Let_def)
    then show ?thesis by blast
  next
    case 3
    then have "processMessage_try js t msg ?w1
        = Some (Inr (emit [Console Stderr ''Invalid value in message:''] ?w1))"
      using parse by (simp add: processMessage_try_def)
    then have "processMessage js t msg w
           = Some (emit [Console Stdout ''Processing a message...'',
                         Console Stderr ''Invalid value in message:''] w)"
      by (simp add: processMessage_def Let_def)
    then show ?thesis by blast
  qed
qed

text \<open>
  C6. A received message whose JSON has no own \<open>id\<close>, whose \<open>value\<close> is undefined,
  or whose \<open>value\<close> does not convert to a BigInt is logged on the error console and
  dropped: the polling iteration returns, publishes nothing, and has scheduled the next
  iteration.
\<close>

theorem malformed_message_is_dropped:
  assumes get: "get_answer t = GetOk bytes len"
    and parse: "JSON_parse js (Buffer_slice (Buffer_fill (Buffer_alloc 1024) bytes) 0 len)
                  = Inr data"
    and bad: "hasOwnProperty data ''id'' \<noteq> Inr True \<or> property data ''value'' = Inr None
              \<or> (\<exists>v e. property data ''value'' = Inr (Some v) \<and> BigInt js v = Inl e)"
  shows "\<exists>w' es. getMessage js t hIn w = Some w'
          \<and> trace w' = trace w @ es
          \<and> (\<exists>line. Console Stderr line \<in> set es)
          \<and> (\<forall>h m. MQPut h m \<notin> set es)
          \<and> published w' = published w
          \<and> outQueueHandle w' = outQueueHandle w
          \<and> timers w' = timers w @ [(SetImmediate, GetMessage hIn)]"
proof -
  let ?w1 = "emit [Console Stdout ''Polling for a message...'', MQGet hIn,
                   Console Stdout ''Message received, length:''] w"
  from processMessage_malformed [OF parse bad, of t ?w1] obtain line where
    pm: "processMessage js t (Buffer_slice (Buffer_fill (Buffer_alloc 1024) bytes) 0 len) ?w1
          = Some (emit [Console Stdout ''Processing a message...'', Console Stderr line] ?w1)"
    by blast
  let ?es = "[Console Stdout ''Polling for a message...'', MQGet hIn,
              Console Stdout ''Message received, length:'',
              Console Stdout ''Processing a message...'', Console Stderr line,
              Schedule SetImmediate (GetMessage hIn)]"
  let ?w' = "schedule SetImmediate (GetMessage hIn)
               (emit [Console Stdout ''Processing a message...'', Console Stderr line] ?w1)"
  have g: "getMessage js t hIn w = Some ?w'"
    using get pm by (simp add: getMessage_def Let_def)
  have tr: "trace ?w' = trace w @ ?es" by simp
  have "published ?w' = published w"
    by (simp add: published_def List.map_filter_def)
  moreover have "Console Stderr line \<in> set ?es" by simp
  moreover have "\<forall>h m. MQPut h m \<notin> set ?es" by simp
  moreover have "timers ?w' = timers w @ [(SetImmediate, GetMessage hIn)]" by simp
  moreover have "outQueueHandle ?w' = outQueueHandle w" by simp
  ultimately show ?thesis using g tr by blast
qed

theorem malformed_message_is_dropped_witness:
  "\<exists>w' es. getMessage sample_builtins
              (sample_turn\<lparr>get_answer := GetOk sample_incomplete_message 8\<rparr>) 2
              (polling_world\<lparr>timers := []\<rparr>) = Some w'
      \<and> trace w' = es
      \<and> (\<exists>line. Console Stderr line \<in> set es)
      \<and> published w' = []
      \<and> timers w' = [(SetImmediate, GetMessage 2)]"
proof -
  let ?t = "sample_turn\<lparr>get_answer := GetOk sample_incomplete_message 8\<rparr>"
  let ?w = "polling_world\<lparr>timers := []\<rparr>"
  let ?data = "JObject [(''id'', JNumber 2)]"
  have get: "get_answer ?t = GetOk sample_incomplete_message 8" by simp
  have "Buffer_slice (Buffer_fill (Buffer_alloc 1024) sample_incomplete_message) 0 8
        = sample_incomplete_message"
    by (simp add: Buffer_slice_def Buffer_fill_def Buffer_alloc_def sample_incomplete_message_def)
  then have parse: "JSON_parse sample_builtins
        (Buffer_slice (Buffer_fill (Buffer_alloc 1024) sample_incomplete_message) 0 8) = Inr ?data"
    by (simp add: sample_builtins_def sample_incomplete_message_def sample_message_def
        sample_reply_def)
  have bad: "hasOwnProperty ?data ''id'' \<noteq> Inr True \<or> property ?data ''value'' = Inr None
             \<or> (\<exists>v e. property ?data ''value'' = Inr (Some v) \<and> BigInt sample_builtins v = Inl e)"
    by (simp add: property_def)
  from malformed_message_is_dropped [OF get parse bad, of 2 ?w]
  obtain w' es where r: "getMessage sample_builtins ?t 2 ?w = Some w'"
    "trace w' = trace ?w @ es" "\<exists>line. Console Stderr line \<in> set es"
    "published w' = published ?w" "timers w' = timers ?w @ [(SetImmediate, GetMessage 2)]"
    by blast
  have "trace ?w = []" "published ?w = []" "timers ?w = []"
    by (simp_all add: published_def polling_world_def List.map_filter_def)
  with r show ?thesis by auto
qed

text \<open>
  Whatever the message is, processMessage publishes nothing or one echo of the parsed
  record.
\<close>

lemma processMessage_publishes_only_echoes:
  assumes "processMessage js t msg w = Some w'"
  shows "published w' = published w
       \<or> (\<exists>data i v p h. JSON_parse js msg = Inr data
            \<and> property data ''id'' = Inr (Some i) \<and> property data ''value'' = Inr (Some v)
            \<and> outQueueHandle w = Some h
            \<and> published w' = published w
                 @ [(h, JSON_stringify js
                          (JObject [(''id'', i), (''value'', v), (''prime'', JBool p)]))])"
proof (cases "JSON_parse js msg")
  case (Inl e)
  with assms show ?thesis
    by (auto simp: processMessage_def processMessage_try_def Let_def published_def
        List.map_filter_def)
next
  case (Inr data)
  note parse = this
  show ?thesis
  proof (cases "hasOwnProperty data ''id'' \<noteq> Inr True \<or> property data ''value'' = Inr None
              \<or> (\<exists>v e. property data ''value'' = Inr (Some v) \<and> BigInt js v = Inl e)")
    case True
    from processMessage_malformed [OF parse True, of t w] assms
    show ?thesis by (auto simp: published_def List.map_filter_def)
  next
    case False
    then have own: "hasOwnProperty data ''id'' = Inr True" by simp
    from hasOwnProperty_True [OF own] obtain i where i: "property data ''id'' = Inr (Some i)"
      by blast
    then obtain kvs where "data = JObject kvs" by (cases data) (auto simp: property_def)
    with False obtain v where v: "property data ''value'' = Inr (Some v)"
      by (auto simp: property_def)
    with False obtain n where n: "BigInt js v = Inr n"
      by (cases "BigInt js v") auto
    have mf: "missing_fields data = Inr False"
      using own v by (simp add: missing_fields_def)
    from millerRabin_returns [of "random_values t" n 5]
    obtain r where r: "millerRabin (random_values t) n 5 = Some r" by auto
    have quiet: "published (emit [Console Stdout a, Console Stderr b] w) = published w" for a b
      by (simp add: published_def List.map_filter_def)
    have quiet3: "published (emit [Console Stdout a, Console Stdout b, Console Stderr c] w)
                  = published w" for a b c
      by (simp add: published_def List.map_filter_def)
    show ?thesis
    proof (cases r)
      case (Inl e)
      with parse mf v n r have "processMessage js t msg w
          = Some (emit [Console Stdout ''Processing a message...'',
                        Console Stderr ''Error parsing JSON:''] w)"
        by (simp add: processMessage_def processMessage_try_def Let_def)
      with assms quiet show ?thesis by auto
    next
      case (Inr p)
      show ?thesis
      proof (cases "toString_raises i")
        case True
        with i have "record_line data = Inl TypeError" by (simp add: record_line_def)
        with parse mf v n r Inr have "processMessage js t msg w
          = Some (emit [Console Stdout ''Processing a message...'',
                        Console Stderr ''Error parsing JSON:''] w)"
          by (simp add: processMessage_def processMessage_try_def Let_def)
        with assms quiet show ?thesis by auto
      next
        case printable: False
        with i have line: "record_line data = Inr (Console Stdout ''Record is prime / not prime'')"
          by (simp add: record_line_def)
        have obj: "object_literal [(''id'', property data ''id''),
                     (''value'', property data ''value''), (''prime'', Inr (Some (JBool p)))]
                 = JObject [(''id'', i), (''value'', v), (''prime'', JBool p)]"
          using i v by (simp add: object_literal_def List.map_filter_def)
        show ?thesis
        proof (cases "outQueueHandle w")
          case None
          with parse mf v n r Inr line obj have "processMessage js t msg w
            = Some (emit [Console Stdout ''Processing a message...'',
                          Console Stdout ''Record is prime / not prime'',
                          Console Stderr
                            ''Output queue handle is not available. Cannot send response.''] w)"
            by (simp add: processMessage_def processMessage_try_def Let_def sendResponse_def)
          with assms quiet3 show ?thesis by auto
        next
          case (Some h)
          show ?thesis
          proof (cases "put_answer t")
            case None
            from processMessage_success [OF parse own i printable v n _ Some None, of p] r Inr assms
            have "w' = emit [Console Stdout ''Processing a message...'',
                       Console Stdout ''Record is prime / not prime'',
                       MQPut h (JSON_stringify js
                                  (JObject [(''id'', i), (''value'', v), (''prime'', JBool p)])),
                       Console Stdout ''Response sent to''] w"
              by simp
            then have "published w' = published w
                 @ [(h, JSON_stringify js
                          (JObject [(''id'', i), (''value'', v), (''prime'', JBool p)]))]"
              by (simp only: published_after_success)
            with parse i v Some show ?thesis by blast
          next
            case (Some err)
            with parse mf v n r Inr line obj \<open>outQueueHandle w = Some h\<close>
            have "processMessage js t msg w
              = Some (emit [Console Stdout ''Processing a message...'',
                            Console Stdout ''Record is prime / not prime'',
                            Console Stderr ''Error putting message to output queue:''] w)"
              by (simp add: processMessage_def processMessage_try_def Let_def sendResponse_def)
            with assms quiet3 show ?thesis by auto
          qed
        qed
      qed
    qed
  qed
qed

subsection \<open>The polling loop\<close>

lemma getMessage_no_message:
  assumes "get_answer t = GetError err" "mqrc err = MQRC_NO_MSG_AVAILABLE"
  shows "getMessage js t hIn w
         = Some (schedule SetImmediate (GetMessage hIn)
             (emit [Console Stdout ''Polling for a message...'', MQGet hIn,
                    Console Stdout ''No message available. Polling again...''] w))"
  using assms by (simp add: getMessage_def Let_def)

lemma getMessage_fault:
  assumes "get_answer t = GetError err" "mqrc err \<noteq> MQRC_NO_MSG_AVAILABLE"
  shows "getMessage js t hIn w
         = Some (emit [Console Stdout ''Polling for a message...'', MQGet hIn,
                       Console Stderr ''Error getting message:''] w)"
  using assms by (simp add: getMessage_def Let_def)

lemma event_loop_idle: "timers w = [] \<Longrightarrow> event_loop js ts w = Some w"
  by (cases ts) simp_all

lemma event_loop_append:
  "event_loop js (ts @ us) w
   = (case event_loop js ts w of None \<Rightarrow> None | Some w' \<Rightarrow> event_loop js us w')"
proof (induction ts arbitrary: w)
  case Nil
  then show ?case by simp
next
  case (Cons t ts)
  show ?case
  proof (cases "timers w")
    case Nil
    then show ?thesis by (simp add: event_loop_idle)
  next
    case (Cons p rest)
    then show ?thesis using Cons.IH by (cases p) (simp split: option.splits)
  qed
qed

lemma polling_continues:
  "timers w = [(d, GetMessage hIn)] \<Longrightarrow>
   \<forall>t\<in>set ts. \<exists>err. get_answer t = GetError err \<and> mqrc err = MQRC_NO_MSG_AVAILABLE \<Longrightarrow>
   \<exists>w'. event_loop js ts w = Some w'
      \<and> timers w' = [(if ts = [] then d else SetImmediate, GetMessage hIn)]
      \<and> receives w' = receives w + length ts"
proof (induction ts arbitrary: w d)
  case Nil
  then show ?case by simp
next
  case (Cons t ts)
  from Cons.prems(2) obtain err where
    err: "get_answer t = GetError err" "mqrc err = MQRC_NO_MSG_AVAILABLE" by auto
  let ?w1 = "schedule SetImmediate (GetMessage hIn)
             (emit [Console Stdout ''Polling for a message...'', MQGet hIn,
                    Console Stdout ''No message available. Polling again...'']
                (w\<lparr>timers := []\<rparr>))"
  have step: "event_loop js (t # ts) w = event_loop js ts ?w1"
    using Cons.prems(1) getMessage_no_message [OF err] by simp
  have t1: "timers ?w1 = [(SetImmediate, GetMessage hIn)]" by simp
  have r1: "receives ?w1 = receives w + 1" by simp
  from Cons.prems(2) have rest:
    "\<forall>t\<in>set ts. \<exists>err. get_answer t = GetError err \<and> mqrc err = MQRC_NO_MSG_AVAILABLE"
    by simp
  from Cons.IH [OF t1 rest] obtain w' where
    "event_loop js ts ?w1 = Some w'"
    "timers w' = [(if ts = [] then SetImmediate else SetImmediate, GetMessage hIn)]"
    "receives w' = receives ?w1 + length ts" by blast
  with step r1 show ?case by simp
qed

text \<open>
  C7. From a scheduled polling iteration, any number of receives that end with no
  message available leave one iteration scheduled by \<^verbatim>\<open>setImmediate\<close>, and each
  task issues one receive (the next iteration is a task of its own, not a nested call).
  A receive that fails for any other reason leaves nothing scheduled: whatever the
  outside would answer afterwards, no further receive is issued.
\<close>

theorem polling_loop_continues_or_halts:
  assumes pending: "timers w = [(d, GetMessage hIn)]"
    and empty: "\<forall>t\<in>set ts. \<exists>err. get_answer t = GetError err \<and> mqrc err = MQRC_NO_MSG_AVAILABLE"
    and fault: "get_answer t = GetError err" "mqrc err \<noteq> MQRC_NO_MSG_AVAILABLE"
  shows "(\<exists>w'. event_loop js ts w = Some w'
            \<and> timers w' = [(if ts = [] then d else SetImmediate, GetMessage hIn)]
            \<and> receives w' = receives w + length ts)
       \<and> (\<exists>w'. event_loop js (ts @ t # ts') w = Some w'
            \<and> timers w' = []
            \<and> receives w' = receives w + length ts + 1)"
proof -
  from polling_continues [OF pending empty] obtain w1 where
    w1: "event_loop js ts w = Some w1"
      "timers w1 = [(if ts = [] then d else SetImmediate, GetMessage hIn)]"
      "receives w1 = receives w + length ts" by blast
  let ?w2 = "emit [Console Stdout ''Polling for a message...'', MQGet hIn,
                   Console Stderr ''Error getting message:''] (w1\<lparr>timers := []\<rparr>)"
  have t2: "timers ?w2 = []" by simp
  have "event_loop js (t # ts') w1 = event_loop js ts' ?w2"
    using w1(2) getMessage_fault [OF fault] by simp
  also have "\<dots> = Some ?w2" using t2 by (rule event_loop_idle)
  finally have "event_loop js (ts @ t # ts') w = Some ?w2"
    using w1(1) by (simp add: event_loop_append)
  moreover have "receives ?w2 = receives w + length ts + 1" using w1(3) by simp
  ultimately have "\<exists>w'. event_loop js (ts @ t # ts') w = Some w'
            \<and> timers w' = [] \<and> receives w' = receives w + length ts + 1"
    using t2 by blast
  with w1 show ?thesis by blast
qed

theorem polling_loop_continues_or_halts_witness:
  "(\<exists>w'. event_loop sample_builtins
            [sample_turn\<lparr>get_answer := GetError (MQError 2033)\<rparr>,
             sample_turn\<lparr>get_answer := GetError (MQError 2033)\<rparr>] polling_world = Some w'
        \<and> timers w' = [(SetImmediate, GetMessage 2)]
        \<and> receives w' = 2)
   \<and> (\<exists>w'. event_loop sample_builtins
            ([sample_turn\<lparr>get_answer := GetError (MQError 2033)\<rparr>,
              sample_turn\<lparr>get_answer := GetError (MQError 2033)\<rparr>]
             @ sample_turn\<lparr>get_answer := GetError (MQError 2009)\<rparr>
             # [sample_turn, sample_turn]) polling_world = Some w'
        \<and> timers w' = []
        \<and> receives w' = 3)"
proof -
  let ?empty = "sample_turn\<lparr>get_answer := GetError (MQError 2033)\<rparr>"
  let ?broken = "sample_turn\<lparr>get_answer := GetError (MQError 2009)\<rparr>"
  have pending: "timers polling_world = [(SetImmediate, GetMessage 2)]"
    by (simp add: polling_world_def)
  have empty: "\<forall>t\<in>set [?empty, ?empty].
                 \<exists>err. get_answer t = GetError err \<and> mqrc err = MQRC_NO_MSG_AVAILABLE"
    by (simp add: MQRC_NO_MSG_AVAILABLE_def)
  have fault: "get_answer ?broken = GetError (MQError 2009)"
    "mqrc (MQError 2009) \<noteq> MQRC_NO_MSG_AVAILABLE"
    by (simp_all add: MQRC_NO_MSG_AVAILABLE_def)
  have none_yet: "receives polling_world = 0"
    by (simp add: receives_def polling_world_def)
  from polling_loop_continues_or_halts
         [OF pending empty fault, of sample_builtins "[sample_turn, sample_turn]"]
  show ?thesis
    by (simp del: event_loop.simps add: none_yet eval_nat_numeral)
qed

subsection \<open>The start sequence and its retries\<close>

lemma retry_simps [simp]:
  "trace (retry w) = trace w @ [Console Stdout ''Retrying connection in 5 seconds...'',
                                Schedule (SetTimeout 5000) StartConsumer]"
  "timers (retry w) = timers w @ [(SetTimeout 5000, StartConsumer)]"
  "outQueueHandle (retry w) = outQueueHandle w"
  "connects (retry w) = connects w"
  by (simp_all add: retry_def connects_def)

lemma disconnect_and_retry_simps [simp]:
  "trace (disconnect_and_retry t hConn w)
     = trace w @ [MQDisc hConn, Console Stdout ''Retrying connection in 5 seconds...'',
                  Schedule (SetTimeout 5000) StartConsumer]
       @ (case disc_answer t of Some discErr \<Rightarrow> [Console Stderr ''Disconnect error:'']
          | None \<Rightarrow> [])"
  "timers (disconnect_and_retry t hConn w) = timers w @ [(SetTimeout 5000, StartConsumer)]"
  "outQueueHandle (disconnect_and_retry t hConn w) = outQueueHandle w"
  "connects (disconnect_and_retry t hConn w) = connects w"
  by (simp_all add: disconnect_and_retry_def Let_def connects_def split: option.splits)

lemma startConsumer_failure:
  assumes "(\<exists>e. connx_answer t = Err e) \<or> (\<exists>e. open_input_answer t = Err e)
           \<or> (\<exists>e. open_output_answer t = Err e)"
  shows "\<exists>w'. startConsumer js t w = Some w'
           \<and> timers w' = timers w @ [(SetTimeout 5000, StartConsumer)]
           \<and> connects w' = connects w + 1"
proof (cases "connx_answer t")
  case (Err e)
  then show ?thesis by (simp add: startConsumer_def Let_def)
next
  case (Ok hConn)
  note conn = this
  show ?thesis
  proof (cases "open_input_answer t")
    case (Err e)
    with conn show ?thesis by (simp add: startConsumer_def Let_def)
  next
    case (Ok hIn)
    with conn assms obtain e where "open_output_answer t = Err e" by auto
    with conn Ok show ?thesis by (simp add: startConsumer_def Let_def)
  qed
qed

lemma startConsumer_open_failure:
  assumes "connx_answer t = Ok hConn"
    and "(\<exists>e. open_input_answer t = Err e) \<or> (\<exists>e. open_output_answer t = Err e)"
  shows "\<exists>w' pre mid post. startConsumer js t w = Some w'
           \<and> trace w' = trace w @ pre @ MQDisc hConn # mid
                          @ Schedule (SetTimeout 5000) StartConsumer # post"
proof (cases "open_input_answer t")
  case (Err e)
  let ?pre = "[Console Stdout ''Starting consumer...'', MQConnx,
               Console Stdout ''Connected to queue manager'', MQOpen hConn InputQueue,
               Console Stderr ''Error opening input queue:'']"
  let ?mid = "[Console Stdout ''Retrying connection in 5 seconds...'']"
  let ?post = "case disc_answer t of Some discErr \<Rightarrow> [Console Stderr ''Disconnect error:'']
               | None \<Rightarrow> []"
  from Err assms(1) obtain w' where
    "startConsumer js t w = Some w'"
    "trace w' = trace w @ ?pre @ MQDisc hConn # ?mid
                  @ Schedule (SetTimeout 5000) StartConsumer # ?post"
    by (simp add: startConsumer_def Let_def)
  then show ?thesis by blast
next
  case (Ok hIn)
  with assms obtain e where out: "open_output_answer t = Err e" by auto
  let ?pre = "[Console Stdout ''Starting consumer...'', MQConnx,
               Console Stdout ''Connected to queue manager'', MQOpen hConn InputQueue,
               Console Stdout ''Input queue opened.'', MQOpen hConn OutputQueue,
               Console Stderr ''Error opening output queue:'']"
  let ?mid = "[Console Stdout ''Retrying connection in 5 seconds...'']"
  let ?post = "case disc_answer t of Some discErr \<Rightarrow> [Console Stderr ''Disconnect error:'']
               | None \<Rightarrow> []"
  from Ok out assms(1) obtain w' where
    "startConsumer js t w = Some w'"
    "trace w' = trace w @ ?pre @ MQDisc hConn # ?mid
                  @ Schedule (SetTimeout 5000) StartConsumer # ?post"
    by (simp add: startConsumer_def Let_def)
  then show ?thesis by blast
qed

lemma retrying_continues:
  "timers w = [(d, StartConsumer)] \<Longrightarrow>
   \<forall>t\<in>set ts. (\<exists>e. connx_answer t = Err e) \<or> (\<exists>e. open_input_answer t = Err e)
               \<or> (\<exists>e. open_output_answer t = Err e) \<Longrightarrow>
   \<exists>w'. event_loop js ts w = Some w'
      \<and> timers w' = [(if ts = [] then d else SetTimeout 5000, StartConsumer)]
      \<and> connects w' = connects w + length ts"
proof (induction ts arbitrary: w d)
  case Nil
  then show ?case by simp
next
  case (Cons t ts)
  from Cons.prems(2) have "(\<exists>e. connx_answer t = Err e) \<or> (\<exists>e. open_input_answer t = Err e)
               \<or> (\<exists>e. open_output_answer t = Err e)" by simp
  from startConsumer_failure [OF this, of js "w\<lparr>timers := []\<rparr>"] obtain w1 where
    w1: "startConsumer js t (w\<lparr>timers := []\<rparr>) = Some w1"
      "timers w1 = [(SetTimeout 5000, StartConsumer)]"
      "connects w1 = connects w + 1" by auto
  have step: "event_loop js (t # ts) w = event_loop js ts w1"
    using Cons.prems(1) w1(1) by simp
  from Cons.prems(2) have rest:
    "\<forall>t\<in>set ts. (\<exists>e. connx_answer t = Err e) \<or> (\<exists>e. open_input_answer t = Err e)
               \<or> (\<exists>e. open_output_answer t = Err e)" by simp
  from Cons.IH [OF w1(2) rest] obtain w' where
    "event_loop js ts w1 = Some w'"
    "timers w' = [(if ts = [] then SetTimeout 5000 else SetTimeout 5000, StartConsumer)]"
    "connects w' = connects w1 + length ts" by blast
  with step w1(3) show ?case by simp
qed

text \<open>
  C8. From a scheduled start, any number of start sequences that fail (at the connect
  or at either open) leave one start scheduled by \<^verbatim>\<open>setTimeout\<close> with 5000 ms,
  and each has attempted one connect: the retries have no bound. When an open fails,
  the disconnect of the session precedes the scheduling of the retry.
\<close>

theorem startConsumer_retries_without_bound:
  assumes pending: "timers w = [(d, StartConsumer)]"
    and fails: "\<forall>t\<in>set ts. (\<exists>e. connx_answer t = Err e) \<or> (\<exists>e. open_input_answer t = Err e)
                  \<or> (\<exists>e. open_output_answer t = Err e)"
    and connected: "connx_answer t = Ok hConn"
    and open_fails: "(\<exists>e. open_input_answer t = Err e) \<or> (\<exists>e. open_output_answer t = Err e)"
  shows "(\<exists>w'. event_loop js ts w = Some w'
            \<and> timers w' = [(if ts = [] then d else SetTimeout 5000, StartConsumer)]
            \<and> connects w' = connects w + length ts)
       \<and> (\<exists>w' pre mid post. startConsumer js t w0 = Some w'
            \<and> trace w' = trace w0 @ pre @ MQDisc hConn # mid
                           @ Schedule (SetTimeout 5000) StartConsumer # post
            \<and> timers w' = timers w0 @ [(SetTimeout 5000, StartConsumer)])"
proof -
  from startConsumer_open_failure [OF connected open_fails, of js w0] obtain w' pre mid post
    where o: "startConsumer js t w0 = Some w'"
      "trace w' = trace w0 @ pre @ MQDisc hConn # mid
                    @ Schedule (SetTimeout 5000) StartConsumer # post" by blast
  from open_fails have "(\<exists>e. connx_answer t = Err e) \<or> (\<exists>e. open_input_answer t = Err e)
                  \<or> (\<exists>e. open_output_answer t = Err e)" by blast
  from startConsumer_failure [OF this, of js w0] o(1)
  have "timers w' = timers w0 @ [(SetTimeout 5000, StartConsumer)]" by simp
  with o have "\<exists>w' pre mid post. startConsumer js t w0 = Some w'
            \<and> trace w' = trace w0 @ pre @ MQDisc hConn # mid
                           @ Schedule (SetTimeout 5000) StartConsumer # post
            \<and> timers w' = timers w0 @ [(SetTimeout 5000, StartConsumer)]" by blast
  with retrying_continues [OF pending fails, of js] show ?thesis by blast
qed

theorem startConsumer_retries_without_bound_witness:
  "(\<exists>w'. event_loop sample_builtins
            [sample_turn\<lparr>connx_answer := Err (MQError 2538)\<rparr>,
             sample_turn\<lparr>open_input_answer := Err (MQError 2085)\<rparr>,
             sample_turn\<lparr>open_output_answer := Err (MQError 2035)\<rparr>] starting_world = Some w'
        \<and> timers w' = [(SetTimeout 5000, StartConsumer)]
        \<and> connects w' = 3)
   \<and> (\<exists>w' pre mid post.
          startConsumer sample_builtins (sample_turn\<lparr>open_output_answer := Err (MQError 2035)\<rparr>)
            initial_world = Some w'
        \<and> trace w' = trace initial_world @ pre @ MQDisc 1 # mid
                       @ Schedule (SetTimeout 5000) StartConsumer # post
        \<and> timers w' = timers initial_world @ [(SetTimeout 5000, StartConsumer)])"
proof -
  let ?down = "sample_turn\<lparr>connx_answer := Err (MQError 2538)\<rparr>"
  let ?no_in = "sample_turn\<lparr>open_input_answer := Err (MQError 2085)\<rparr>"
  let ?no_out = "sample_turn\<lparr>open_output_answer := Err (MQError 2035)\<rparr>"
  have pending: "timers starting_world = [(SetTimeout 5000, StartConsumer)]"
    by (simp add: starting_world_def)
  have fails: "\<forall>t\<in>set [?down, ?no_in, ?no_out].
                 (\<exists>e. connx_answer t = Err e) \<or> (\<exists>e. open_input_answer t = Err e)
                  \<or> (\<exists>e. open_output_answer t = Err e)"
    by simp
  have connected: "connx_answer ?no_out = Ok 1" by (simp add: sample_turn_def)
  have open_fails: "(\<exists>e. open_input_answer ?no_out = Err e)
                    \<or> (\<exists>e. open_output_answer ?no_out = Err e)" by simp
  have none_yet: "connects starting_world = 0"
    by (simp add: connects_def starting_world_def)
  from startConsumer_retries_without_bound
         [OF pending fails connected open_fails, of sample_builtins initial_world]
  show ?thesis
    by (simp del: event_loop.simps add: none_yet eval_nat_numeral)
qed

end
